theory Spec2Isabelle
  imports Main "HOL-Library.Sublist" "HOL-Library.AList"
begin

section \<open>The EdOpt chat widget (static/widget.js)\<close>

text \<open>
  A shallow embedding of the widget's session store, its Markdown renderer and its
  request lifecycle.

  Strings are \<^typ>\<open>string\<close>: one character of the model is one UTF-16 code unit below 256.
  The line terminators U+2028 and U+2029 and the white space above U+00FF, which the
  regular expressions and \<open>trim\<close> of the host also recognise, have no counterpart here.
\<close>

subsection \<open>Regular-expression substitutions of \<open>renderMarkdown\<close>\<close>

text \<open>The characters that \<open>.\<close> does not match and at which \<open>^\<close> and \<open>$\<close> match under the \<open>m\<close> flag.\<close>

definition LineTerminator :: "char \<Rightarrow> bool" where
  "LineTerminator c \<longleftrightarrow> c = CHR 0x0A \<or> c = CHR 0x0D"

text \<open>\<open>s.replace(/pat/g, rep)\<close> for a literal, non-empty pattern: leftmost matches, left to right.\<close>

function replace_lit :: "string \<Rightarrow> string \<Rightarrow> string \<Rightarrow> string" where
  "replace_lit pat rep [] = []"
| "replace_lit pat rep (c # cs) =
     (if pat \<noteq> [] \<and> prefix pat (c # cs)
      then rep @ replace_lit pat rep (drop (length pat) (c # cs))
      else c # replace_lit pat rep cs)"
  by pat_completeness auto
termination
  by (relation "measure (\<lambda>(pat, rep, s). length s)") auto

text \<open>
  \<open>s.replace(/^mark(.+)$/gm, "op$1cl")\<close>. The greedy \<open>.+\<close> runs to the end of the line, where
  \<open>$\<close> holds, so a match is a whole line that starts with the marker and has at least one
  more character; \<open>map_lines\<close> applies the rewrite to each line and keeps the terminators.
\<close>

definition wrap_line :: "string \<Rightarrow> string \<Rightarrow> string \<Rightarrow> string \<Rightarrow> string" where
  "wrap_line mark op cl l =
     (if prefix mark l \<and> length mark < length l then op @ drop (length mark) l @ cl else l)"

fun map_lines :: "(string \<Rightarrow> string) \<Rightarrow> string \<Rightarrow> string \<Rightarrow> string" where
  "map_lines f l [] = f l"
| "map_lines f l (c # cs) =
     (if LineTerminator c then f l @ c # map_lines f [] cs else map_lines f (l @ [c]) cs)"

definition replace_line :: "string \<Rightarrow> string \<Rightarrow> string \<Rightarrow> string \<Rightarrow> string" where
  "replace_line mark op cl s = map_lines (wrap_line mark op cl) [] s"

text \<open>
  \<open>s.replace(/D(.+?)D/g, "op$1cl")\<close> for a delimiter \<open>D\<close> of asterisks. After the opening
  delimiter the lazy \<open>.+?\<close> takes the fewest characters, at least one and none a line
  terminator, that are followed by the closing delimiter: \<open>lazy_body\<close> returns that body
  and the text after the closing delimiter.
\<close>

fun lazy_body :: "string \<Rightarrow> string \<Rightarrow> (string \<times> string) option" where
  "lazy_body d [] = None"
| "lazy_body d (c # cs) =
     (if LineTerminator c then None
      else if prefix d cs then Some ([c], drop (length d) cs)
      else (case lazy_body d cs of None \<Rightarrow> None | Some (b, r) \<Rightarrow> Some (c # b, r)))"

lemma lazy_body_length: "lazy_body d s = Some (b, r) \<Longrightarrow> length r < length s"
  by (induction s arbitrary: b r) (auto split: if_splits option.splits)

function replace_delim :: "string \<Rightarrow> string \<Rightarrow> string \<Rightarrow> string \<Rightarrow> string" where
  "replace_delim d op cl [] = []"
| "replace_delim d op cl (c # cs) =
     (if prefix d (c # cs)
      then (case lazy_body d (drop (length d) (c # cs)) of
              Some (b, r) \<Rightarrow> op @ b @ cl @ replace_delim d op cl r
            | None \<Rightarrow> c # replace_delim d op cl cs)
      else c # replace_delim d op cl cs)"
  by pat_completeness auto
termination
proof (relation "measure (\<lambda>(d, op, cl, s). length s)")
  fix d op cl :: string and c cs x2 x y
  assume "lazy_body d (drop (length d) (c # cs)) = Some x2" and "(x, y) = x2"
  then have "length y < length (drop (length d) (c # cs))"
    using lazy_body_length by metis
  then show "((d, op, cl, y), d, op, cl, c # cs) \<in> measure (\<lambda>(d, op, cl, s). length s)"
    by simp
qed auto

text \<open>
  The link pattern \<open>/\[([^\]]+)\]\(([^)]+)\)/\<close> at the head of a string: the text is the
  longest run without \<open>]\<close>, the URL the longest run without \<open>)\<close>, both non-empty.
  The result is the text, the URL and what follows the match.
\<close>

definition link_at :: "string \<Rightarrow> (string \<times> string \<times> string) option" where
  "link_at s =
     (case s of
        [] \<Rightarrow> None
      | c # r \<Rightarrow>
          if c \<noteq> CHR ''['' then None
          else let t = takeWhile (\<lambda>x. x \<noteq> CHR '']'') r;
                   r1 = dropWhile (\<lambda>x. x \<noteq> CHR '']'') r
               in if t = [] \<or> \<not> prefix '']('' r1 then None
                  else let r2 = drop 2 r1;
                           u = takeWhile (\<lambda>x. x \<noteq> CHR '')'') r2;
                           r3 = dropWhile (\<lambda>x. x \<noteq> CHR '')'') r2
                       in if u = [] \<or> r3 = [] then None else Some (t, u, tl r3))"

lemma link_at_length: "link_at s = Some (t, u, r) \<Longrightarrow> length r < length s"
proof -
  assume a: "link_at s = Some (t, u, r)"
  then obtain c s1 where s: "s = c # s1" by (cases s) (auto simp: link_at_def)
  let ?r1 = "dropWhile (\<lambda>x. x \<noteq> CHR '']'') s1"
  let ?r3 = "dropWhile (\<lambda>x. x \<noteq> CHR '')'') (drop 2 ?r1)"
  from a s have r: "r = tl ?r3"
    by (auto simp: link_at_def Let_def split: if_splits)
  have "length ?r3 \<le> length (drop 2 ?r1)" by (rule length_dropWhile_le)
  also have "\<dots> \<le> length ?r1" by simp
  also have "\<dots> \<le> length s1" by (rule length_dropWhile_le)
  finally have "length (tl ?r3) \<le> length s1" by simp
  with r s show ?thesis by simp
qed

definition A_OPEN :: string where \<open>A_OPEN = ''<a href="''\<close>
definition A_ATTRS :: string where \<open>A_ATTRS = ''" target="_blank" rel="noopener">''\<close>

function replace_links :: "string \<Rightarrow> string" where
  "replace_links [] = []"
| "replace_links (c # cs) =
     (case link_at (c # cs) of
        Some (t, u, r) \<Rightarrow> A_OPEN @ u @ A_ATTRS @ t @ ''</a>'' @ replace_links r
      | None \<Rightarrow> c # replace_links cs)"
  by pat_completeness auto
termination
proof (relation "measure length")
  fix c cs x2 t y u r
  assume "link_at (c # cs) = Some x2" and "(t, y) = x2" and "(u, r) = y"
  then have "length r < length (c # cs)"
    using link_at_length by metis
  then show "(r, c # cs) \<in> measure length" by simp
qed auto

text \<open>Inline code, \<open>/`([^`]+)`/\<close>, at the head of a string: the body and what follows.\<close>

definition code_at :: "string \<Rightarrow> (string \<times> string) option" where
  "code_at s =
     (case s of
        [] \<Rightarrow> None
      | c # r \<Rightarrow>
          if c \<noteq> CHR 0x60 then None
          else let b = takeWhile (\<lambda>x. x \<noteq> CHR 0x60) r;
                   r1 = dropWhile (\<lambda>x. x \<noteq> CHR 0x60) r
               in if b = [] \<or> r1 = [] then None else Some (b, tl r1))"

lemma code_at_length: "code_at s = Some (b, r) \<Longrightarrow> length r < length s"
proof -
  assume a: "code_at s = Some (b, r)"
  then obtain c s1 where s: "s = c # s1" by (cases s) (auto simp: code_at_def)
  let ?r1 = "dropWhile (\<lambda>x. x \<noteq> CHR 0x60) s1"
  from a s have r: "r = tl ?r1"
    by (auto simp: code_at_def Let_def split: if_splits)
  have "length ?r1 \<le> length s1" by (rule length_dropWhile_le)
  then have "length (tl ?r1) \<le> length s1" by simp
  with r s show ?thesis by simp
qed

function replace_code :: "string \<Rightarrow> string" where
  "replace_code [] = []"
| "replace_code (c # cs) =
     (case code_at (c # cs) of
        Some (b, r) \<Rightarrow> ''<code>'' @ b @ ''</code>'' @ replace_code r
      | None \<Rightarrow> c # replace_code cs)"
  by pat_completeness auto
termination
proof (relation "measure length")
  fix c cs x2 b r
  assume "code_at (c # cs) = Some x2" and "(b, r) = x2"
  then have "length r < length (c # cs)"
    using code_at_length by metis
  then show "(r, c # cs) \<in> measure length" by simp
qed auto

text \<open>
  \<open>html.replace(/(?:<br>)?(<li>[\s\S]*?<\/li>)(?:<br>)?/g, "$1")\<close>: a list item, from
  \<open><li>\<close> to the first \<open></li>\<close> after it, loses a \<open><br>\<close> directly before and directly
  after it. \<open>find_lit\<close> is the leftmost occurrence of a literal: the text before and after.
\<close>

fun find_lit :: "string \<Rightarrow> string \<Rightarrow> (string \<times> string) option" where
  "find_lit pat [] = (if pat = [] then Some ([], []) else None)"
| "find_lit pat (c # cs) =
     (if prefix pat (c # cs) then Some ([], drop (length pat) (c # cs))
      else (case find_lit pat cs of None \<Rightarrow> None | Some (b, r) \<Rightarrow> Some (c # b, r)))"

lemma find_lit_length: "find_lit pat s = Some (b, r) \<Longrightarrow> length r \<le> length s"
  by (induction s arbitrary: b r) (auto split: if_splits option.splits)

definition skip_br :: "string \<Rightarrow> string" where
  "skip_br s = (if prefix ''<br>'' s then drop 4 s else s)"

definition li_at :: "string \<Rightarrow> (string \<times> string) option" where
  "li_at s = (if prefix ''<li>'' s then find_lit ''</li>'' (drop 4 s) else None)"

lemma li_at_length: "li_at s = Some (b, r) \<Longrightarrow> length r < length s"
proof -
  assume a: "li_at s = Some (b, r)"
  then have p: "prefix ''<li>'' s" and f: "find_lit ''</li>'' (drop 4 s) = Some (b, r)"
    by (auto simp: li_at_def split: if_splits)
  from p have "4 \<le> length s" by (auto simp: prefix_def)
  moreover from f have "length r \<le> length (drop 4 s)" by (rule find_lit_length)
  ultimately show ?thesis by simp
qed

lemma skip_br_length: "length (skip_br s) \<le> length s"
  by (auto simp: skip_br_def)

function strip_br :: "string \<Rightarrow> string" where
  "strip_br [] = []"
| "strip_br (c # cs) =
     (case li_at (skip_br (c # cs)) of
        Some (b, r) \<Rightarrow> ''<li>'' @ b @ ''</li>'' @ strip_br (skip_br r)
      | None \<Rightarrow> c # strip_br cs)"
  by pat_completeness auto
termination
proof (relation "measure length")
  fix c cs x2 b r
  assume "li_at (skip_br (c # cs)) = Some x2" and "(b, r) = x2"
  then have "length r < length (skip_br (c # cs))"
    using li_at_length by metis
  moreover have "length (skip_br r) \<le> length r" "length (skip_br (c # cs)) \<le> length (c # cs)"
    by (rule skip_br_length)+
  ultimately show "(skip_br r, c # cs) \<in> measure length" by simp
qed auto

subsection \<open>Grouping list items\<close>

text \<open>
  \<open>html.split(/(<li>|<\/li>)/)\<close>: the pieces between the separators, with each separator
  as a piece of its own; \<open>acc\<close> is the piece being read.
\<close>

function split_li :: "string \<Rightarrow> string \<Rightarrow> string list" where
  "split_li acc [] = [acc]"
| "split_li acc (c # cs) =
     (if prefix ''<li>'' (c # cs) then acc # ''<li>'' # split_li [] (drop 4 (c # cs))
      else if prefix ''</li>'' (c # cs) then acc # ''</li>'' # split_li [] (drop 5 (c # cs))
      else split_li (acc @ [c]) cs)"
  by pat_completeness auto
termination
  by (relation "measure (\<lambda>(acc, s). length s)") auto

text \<open>White space of \<open>String.prototype.trim\<close> among the code units below 256.\<close>

definition WhiteSpace :: "char \<Rightarrow> bool" where
  "WhiteSpace c \<longleftrightarrow>
     c = CHR 0x09 \<or> c = CHR 0x0A \<or> c = CHR 0x0B \<or> c = CHR 0x0C \<or> c = CHR 0x0D \<or>
     c = CHR 0x20 \<or> c = CHR 0xA0"

definition trim :: "string \<Rightarrow> string" where
  "trim s = rev (dropWhile WhiteSpace (rev (dropWhile WhiteSpace s)))"

text \<open>
  The inner loop over \<open>lines[j]\<close>, \<open>j > i\<close>: whether the next piece that is not empty once
  its \<open><br>\<close> are removed and it is trimmed is \<open><li>\<close>.
\<close>

fun nextLi :: "string list \<Rightarrow> bool" where
  "nextLi [] = False"
| "nextLi (l # ls) =
     (let trimmed = trim (replace_lit ''<br>'' [] l)
      in if trimmed = ''<li>'' then True else if trimmed \<noteq> [] then False else nextLi ls)"

text \<open>The outer loop: what is appended to \<open>result\<close> from the remaining pieces on.\<close>

fun group_li :: "bool \<Rightarrow> string list \<Rightarrow> string" where
  "group_li inList [] = (if inList then ''</ul>'' else [])"
| "group_li inList (l # ls) =
     (if l = ''<li>'' then (if \<not> inList then ''<ul>'' else []) @ ''<li>'' @ group_li True ls
      else if l = ''</li>'' then
        ''</li>'' @
        (if \<not> nextLi ls \<and> inList then ''</ul>'' @ group_li False ls else group_li inList ls)
      else l @ group_li inList ls)"

subsection \<open>\<open>renderMarkdown\<close>\<close>

text \<open>
  The chain of substitutions on a string. The first of the two substitutions after the
  chain replaces every match by itself and so leaves the string as it is.
\<close>

definition escape_html :: "string \<Rightarrow> string" where
  "escape_html s =
     replace_lit ''>'' ''&gt;'' (replace_lit ''<'' ''&lt;'' (replace_lit ''&'' ''&amp;'' s))"

definition headers :: "string \<Rightarrow> string" where
  "headers s =
     replace_line ''# '' ''<h1>'' ''</h1>''
       (replace_line ''## '' ''<h2>'' ''</h2>''
         (replace_line ''### '' ''<h3>'' ''</h3>'' s))"

definition emphasis :: "string \<Rightarrow> string" where
  "emphasis s =
     replace_delim ''*'' ''<em>'' ''</em>''
       (replace_delim ''**'' ''<strong>'' ''</strong>''
         (replace_delim ''***'' ''<strong><em>'' ''</em></strong>'' s))"

definition line_breaks :: "string \<Rightarrow> string" where
  "line_breaks s =
     replace_lit [CHR 0x0A] ''<br>'' (replace_lit [CHR 0x0A, CHR 0x0A] ''</p><p>'' s)"

definition markup :: "string \<Rightarrow> string" where
  "markup s =
     line_breaks
       (replace_line ''- '' ''<li>'' ''</li>''
         (replace_code (replace_links (emphasis (headers (escape_html s))))))"

definition render :: "string \<Rightarrow> string" where
  "render s = ''<p>'' @ group_li False (split_li [] (strip_br (markup s))) @ ''</p>''"

subsection \<open>Values of the host\<close>

text \<open>
  A value read from JSON text. Numbers are the integers, which is what \<open>Date.now()\<close>
  yields and what the store holds; fractions and infinities are not modelled. A value of
  the program is \<open>undefined\<close> (\<open>None\<close>) or a JSON value: the widget computes nothing else.
\<close>

datatype json =
  JNull | JBool bool | JNum int | JStr string | JArr "json list" | JObj "(string \<times> json) list"

type_synonym jsval = "json option"

datatype exn = TypeError | SyntaxError | SecurityError | QuotaExceededError

fun truthy :: "jsval \<Rightarrow> bool" where
  "truthy None = False"
| "truthy (Some JNull) = False"
| "truthy (Some (JBool b)) = b"
| "truthy (Some (JNum n)) = (n \<noteq> 0)"
| "truthy (Some (JStr s)) = (s \<noteq> [])"
| "truthy (Some (JArr xs)) = True"
| "truthy (Some (JObj ps)) = True"

text \<open>
  \<open>v.k\<close> for the property names the widget reads (none of them is on a prototype): a
  \<open>TypeError\<close> on \<open>null\<close>, the own property of an object, \<open>undefined\<close> otherwise.
\<close>

fun get_prop :: "json \<Rightarrow> string \<Rightarrow> exn + jsval" where
  "get_prop JNull k = Inl TypeError"
| "get_prop (JObj ps) k = Inr (map_of ps k)"
| "get_prop v k = Inr None"

text \<open>
  Numbers as operands of \<open>-\<close> and \<open><\<close>. \<open>ToNumber\<close> of a string, an array or an object is
  the host's (\<open>StringToNumber\<close>, \<open>ToPrimitive\<close>) and is the parameter \<open>h\<close>.
\<close>

datatype jsnum = NaN | Fin int

fun ToNumber :: "(json \<Rightarrow> jsnum) \<Rightarrow> jsval \<Rightarrow> jsnum" where
  "ToNumber h None = NaN"
| "ToNumber h (Some JNull) = Fin 0"
| "ToNumber h (Some (JBool b)) = Fin (if b then 1 else 0)"
| "ToNumber h (Some (JNum n)) = Fin n"
| "ToNumber h (Some v) = h v"

fun num_minus :: "jsnum \<Rightarrow> jsnum \<Rightarrow> jsnum" where
  "num_minus (Fin a) (Fin b) = Fin (a - b)"
| "num_minus x y = NaN"

fun num_less :: "jsnum \<Rightarrow> jsnum \<Rightarrow> bool" where
  "num_less (Fin a) (Fin b) = (a < b)"
| "num_less x y = False"

subsection \<open>Session store\<close>

text \<open>
  \<open>localStorage\<close>. A stored string is identified with what \<open>JSON.parse\<close> makes of it: a
  syntax error or a value; \<open>JSON.stringify\<close> of an object writes the text of that object
  without the properties whose value is \<open>undefined\<close>. Reading throws when the storage is
  not available, writing also when it is full.
\<close>

datatype item = Garbled | Json json

record storage =
  items :: "(string \<times> item) list"
  available :: bool
  full :: bool

definition STORAGE_KEY :: string where
  "STORAGE_KEY = ''edopt_chat_session_id''"

definition SESSION_TTL :: int where
  "SESSION_TTL = 24 * 60 * 60 * 1000"

definition getItem :: "string \<Rightarrow> storage \<Rightarrow> exn + item option" where
  "getItem k st = (if available st then Inr (map_of (items st) k) else Inl SecurityError)"

definition setItem :: "string \<Rightarrow> item \<Rightarrow> storage \<Rightarrow> exn + storage" where
  "setItem k v st =
     (if \<not> available st then Inl SecurityError
      else if full st then Inl QuotaExceededError
      else Inr (st\<lparr>items := AList.update k v (items st)\<rparr>))"

text \<open>\<open>JSON.parse\<close> of what \<open>getItem\<close> returned; \<open>null\<close>, for a missing key, is read as the text \<open>null\<close>.\<close>

fun JSON_parse :: "item option \<Rightarrow> exn + json" where
  "JSON_parse None = Inr JNull"
| "JSON_parse (Some Garbled) = Inl SyntaxError"
| "JSON_parse (Some (Json v)) = Inr v"

text \<open>The \<open>try\<close> block of \<open>getSession\<close>: the value returned inside it, if any.\<close>

definition getSession_try :: "(json \<Rightarrow> jsnum) \<Rightarrow> int \<Rightarrow> storage \<Rightarrow> exn + jsval option" where
  "getSession_try h now st =
     (case getItem STORAGE_KEY st of
        Inl e \<Rightarrow> Inl e
      | Inr raw \<Rightarrow>
          (case JSON_parse raw of
             Inl e \<Rightarrow> Inl e
           | Inr data \<Rightarrow>
               if \<not> truthy (Some data) then Inr None
               else (case get_prop data ''ts'' of
                       Inl e \<Rightarrow> Inl e
                     | Inr ts \<Rightarrow>
                         if num_less (num_minus (Fin now) (ToNumber h ts)) (Fin SESSION_TTL)
                         then (case get_prop data ''id'' of
                                 Inl e \<Rightarrow> Inl e
                               | Inr i \<Rightarrow> Inr (Some i))
                         else Inr None)))"

text \<open>\<open>getSession\<close> returns a value and leaves the storage as \<open>snd\<close> of its result.\<close>

definition getSession :: "(json \<Rightarrow> jsnum) \<Rightarrow> int \<Rightarrow> storage \<Rightarrow> jsval \<times> storage" where
  "getSession h now st =
     (case getSession_try h now st of
        Inr (Some v) \<Rightarrow> (v, st)
      | Inr None \<Rightarrow> (Some JNull, st)
      | Inl e \<Rightarrow> (Some JNull, st))"

definition session_text :: "jsval \<Rightarrow> int \<Rightarrow> item" where
  "session_text i now =
     Json (JObj ((case i of None \<Rightarrow> [] | Some v \<Rightarrow> [(''id'', v)]) @ [(''ts'', JNum now)]))"

definition saveSession :: "jsval \<Rightarrow> int \<Rightarrow> storage \<Rightarrow> storage" where
  "saveSession i now st =
     (case setItem STORAGE_KEY (session_text i now) st of Inr st' \<Rightarrow> st' | Inl e \<Rightarrow> st)"

subsection \<open>\<open>renderMarkdown\<close> on a value\<close>

text \<open>
  A falsy argument gives the empty string. A truthy one that is no string has no
  \<open>replace\<close> method, so the first substitution throws.
\<close>

definition renderMarkdown :: "jsval \<Rightarrow> exn + string" where
  "renderMarkdown text =
     (if \<not> truthy text then Inr []
      else (case text of Some (JStr s) \<Rightarrow> Inr (render s) | _ \<Rightarrow> Inl TypeError))"

subsection \<open>The widget: module state and the parts of the page it changes\<close>

text \<open>
  The children of the message list are messages, with the role of their class name and
  the assignment that filled them (\<open>innerHTML\<close> for the assistant, \<open>textContent\<close>
  otherwise), and typing indicators. Styles, heights and the scroll position are left out.
\<close>

datatype role = User | Assistant

datatype content = InnerHTML string | TextContent jsval

datatype node = Message role content | TypingIndicator

record widget =
  sessionId :: jsval
  isOpen :: bool
  isLoading :: bool
  hasGreeted :: bool
  panel_open :: bool
  messages :: "node list"
  input_value :: string
  send_disabled :: bool
  input_focused :: bool
  localStorage :: storage

definition addMessage :: "jsval \<Rightarrow> role \<Rightarrow> widget \<Rightarrow> exn + widget" where
  "addMessage c r w =
     (if r = Assistant
      then (case renderMarkdown c of
              Inl e \<Rightarrow> Inl e
            | Inr html \<Rightarrow> Inr (w\<lparr>messages := messages w @ [Message r (InnerHTML html)]\<rparr>))
      else Inr (w\<lparr>messages := messages w @ [Message r (TextContent c)]\<rparr>))"

definition showTyping :: "widget \<Rightarrow> widget" where
  "showTyping w = w\<lparr>messages := messages w @ [TypingIndicator]\<rparr>"

text \<open>\<open>getElementById\<close> finds the first indicator in document order.\<close>

definition hideTyping :: "widget \<Rightarrow> widget" where
  "hideTyping w = w\<lparr>messages := remove1 TypingIndicator (messages w)\<rparr>"

subsection \<open>Requests\<close>

text \<open>
  An \<open>await\<close> ends with a rejection or a value. A response has its \<open>ok\<close> flag; reading its
  body as JSON is a second \<open>await\<close>. A request is logged when \<open>fetch\<close> is called.
\<close>

datatype 'a settled = Rejected | Fulfilled 'a

datatype response = Response (ok: bool)

datatype request = GET_greet | POST_chat json

text \<open>How an activation of an \<open>async\<close> function ends: it returns, or an exception leaves it.\<close>

datatype outcome = Returned widget | Threw exn widget

definition GREETING :: string where
  \<open>GREETING =
     ''Welcome! I'm the EdOpt Assistant. How can I help you explore education options in New Hampshire?''\<close>

definition APOLOGY :: string where
  \<open>APOLOGY = ''I'm sorry, I'm having trouble right now. Please try again in a moment.''\<close>

subsubsection \<open>\<open>fetchGreeting\<close>\<close>

text \<open>Up to the first \<open>await\<close>: the request \<open>GET /greet\<close> is then in flight.\<close>

definition fetchGreeting :: "widget \<Rightarrow> widget \<times> request" where
  "fetchGreeting w = (showTyping (w\<lparr>hasGreeted := True\<rparr>), GET_greet)"

definition fetchGreeting_catch :: "widget \<Rightarrow> outcome" where
  "fetchGreeting_catch w =
     (let w1 = hideTyping w
      in case addMessage (Some (JStr GREETING)) Assistant w1 of
           Inr w2 \<Rightarrow> Returned w2
         | Inl e \<Rightarrow> Threw e w1)"

text \<open>When \<open>fetch\<close> settles: \<open>None\<close> when the function now awaits \<open>resp.json()\<close>.\<close>

definition fetchGreeting_fetched :: "response settled \<Rightarrow> widget \<Rightarrow> outcome option" where
  "fetchGreeting_fetched r w =
     (case r of Rejected \<Rightarrow> Some (fetchGreeting_catch w) | Fulfilled resp \<Rightarrow> None)"

text \<open>
  The rest of the \<open>try\<close> block once \<open>data\<close> is there: the state it reaches, and whether it
  got there by an exception.
\<close>

definition fetchGreeting_try :: "json \<Rightarrow> int \<Rightarrow> widget \<Rightarrow> bool \<times> widget" where
  "fetchGreeting_try data now w =
     (case get_prop data ''session_id'' of
        Inl e \<Rightarrow> (True, w)
      | Inr sid \<Rightarrow>
          (let w1 = w\<lparr>sessionId := sid\<rparr>;
               w2 = w1\<lparr>localStorage := saveSession (sessionId w1) now (localStorage w1)\<rparr>;
               w3 = hideTyping w2
           in case get_prop data ''answer'' of
                Inl e \<Rightarrow> (True, w3)
              | Inr answer \<Rightarrow>
                  (case addMessage answer Assistant w3 of
                     Inl e \<Rightarrow> (True, w3)
                   | Inr w4 \<Rightarrow> (False, w4))))"

definition fetchGreeting_parsed :: "json settled \<Rightarrow> int \<Rightarrow> widget \<Rightarrow> outcome" where
  "fetchGreeting_parsed j now w =
     (case j of
        Rejected \<Rightarrow> fetchGreeting_catch w
      | Fulfilled data \<Rightarrow>
          (case fetchGreeting_try data now w of
             (True, w') \<Rightarrow> fetchGreeting_catch w'
           | (False, w') \<Rightarrow> Returned w'))"

subsubsection \<open>\<open>sendMessage\<close>\<close>

definition chat_body :: "string \<Rightarrow> jsval \<Rightarrow> json" where
  "chat_body message sid =
     JObj ((''message'', JStr message) #
           (case sid of None \<Rightarrow> [] | Some v \<Rightarrow> [(''session_id'', v)]))"

text \<open>
  Up to the first \<open>await\<close>: the state, and the request if one was sent. \<open>Inl\<close> is an
  exception that leaves the function before the \<open>try\<close> block.
\<close>

definition sendMessage ::
  "(json \<Rightarrow> jsnum) \<Rightarrow> int \<Rightarrow> widget \<Rightarrow> (exn \<times> widget) + (widget \<times> request option)" where
  "sendMessage h now w =
     (let message = trim (input_value w)
      in if message = [] \<or> isLoading w then Inr (w, None)
         else (case addMessage (Some (JStr message)) User w of
                 Inl e \<Rightarrow> Inl (e, w)
               | Inr w1 \<Rightarrow>
                   (let w2 = w1\<lparr>input_value := []\<rparr>;
                        w3 = (if \<not> truthy (sessionId w2)
                              then (case getSession h now (localStorage w2) of
                                      (v, st) \<Rightarrow> w2\<lparr>sessionId := v, localStorage := st\<rparr>)
                              else w2);
                        w4 = showTyping (w3\<lparr>isLoading := True, send_disabled := True\<rparr>)
                    in Inr (w4, Some (POST_chat (chat_body message (sessionId w4)))))))"

definition sendMessage_finally :: "widget \<Rightarrow> widget" where
  "sendMessage_finally w = w\<lparr>isLoading := False, send_disabled := False, input_focused := True\<rparr>"

definition sendMessage_catch :: "widget \<Rightarrow> outcome" where
  "sendMessage_catch w =
     (let w1 = hideTyping w
      in case addMessage (Some (JStr APOLOGY)) Assistant w1 of
           Inr w2 \<Rightarrow> Returned (sendMessage_finally w2)
         | Inl e \<Rightarrow> Threw e (sendMessage_finally w1))"

definition sendMessage_fetched :: "response settled \<Rightarrow> widget \<Rightarrow> outcome option" where
  "sendMessage_fetched r w =
     (case r of
        Rejected \<Rightarrow> Some (sendMessage_catch w)
      | Fulfilled resp \<Rightarrow> if \<not> ok resp then Some (sendMessage_catch w) else None)"

definition sendMessage_try :: "json \<Rightarrow> int \<Rightarrow> widget \<Rightarrow> bool \<times> widget" where
  "sendMessage_try data now w =
     (case get_prop data ''session_id'' of
        Inl e \<Rightarrow> (True, w)
      | Inr sid \<Rightarrow>
          (let w1 = w\<lparr>sessionId := sid\<rparr>;
               w2 = w1\<lparr>localStorage := saveSession (sessionId w1) now (localStorage w1)\<rparr>;
               w3 = hideTyping w2
           in case get_prop data ''answer'' of
                Inl e \<Rightarrow> (True, w3)
              | Inr answer \<Rightarrow>
                  (case addMessage answer Assistant w3 of
                     Inl e \<Rightarrow> (True, w3)
                   | Inr w4 \<Rightarrow> (False, w4))))"

definition sendMessage_parsed :: "json settled \<Rightarrow> int \<Rightarrow> widget \<Rightarrow> outcome" where
  "sendMessage_parsed j now w =
     (case j of
        Rejected \<Rightarrow> sendMessage_catch w
      | Fulfilled data \<Rightarrow>
          (case sendMessage_try data now w of
             (True, w') \<Rightarrow> sendMessage_catch w'
           | (False, w') \<Rightarrow> Returned (sendMessage_finally w')))"

subsubsection \<open>\<open>togglePanel\<close> and \<open>init\<close>\<close>

definition togglePanel :: "widget \<Rightarrow> widget \<times> request option" where
  "togglePanel w =
     (let w1 = w\<lparr>isOpen := \<not> isOpen w\<rparr>
      in if isOpen w1
         then (let w2 = w1\<lparr>panel_open := True\<rparr>
               in if \<not> hasGreeted w2
                  then (case fetchGreeting w2 of (w3, q) \<Rightarrow> (w3\<lparr>input_focused := True\<rparr>, Some q))
                  else (w2\<lparr>input_focused := True\<rparr>, None))
         else (w1\<lparr>panel_open := False\<rparr>, None))"

text \<open>The module's initial bindings, then \<open>init\<close> on the page as \<open>buildWidget\<close> leaves it.\<close>

definition init :: "(json \<Rightarrow> jsnum) \<Rightarrow> int \<Rightarrow> storage \<Rightarrow> widget" where
  "init h now st =
     (case getSession h now st of
        (v, st') \<Rightarrow>
          \<lparr>sessionId = v, isOpen = False, isLoading = False, hasGreeted = False,
           panel_open = False, messages = [], input_value = [], send_disabled = False,
           input_focused = False, localStorage = st'\<rparr>)"

subsection \<open>The page as a system of events\<close>

text \<open>
  Handlers run one at a time. Between them the page holds the widget, the activations
  of \<open>fetchGreeting\<close> and \<open>sendMessage\<close> that are suspended at an \<open>await\<close>, and the log
  of the requests sent since the page was loaded. An event is a click on the button or
  the close button, an edit of the input, a submission (send button or Enter), or the
  settling of the \<open>await\<close> of the suspended activation with the given index; it comes
  with the time of \<open>Date.now()\<close>.
\<close>

datatype stage = AwaitFetch | AwaitJson

record system =
  page :: widget
  greetings :: "stage list"
  sends :: "stage list"
  sent :: "request list"

datatype event =
    Toggle
  | Edit string
  | Submit
  | GreetFetched nat "response settled"
  | GreetParsed nat "json settled"
  | ChatFetched nat "response settled"
  | ChatParsed nat "json settled"

fun state_of :: "outcome \<Rightarrow> widget" where
  "state_of (Returned w) = w"
| "state_of (Threw e w) = w"

definition without :: "nat \<Rightarrow> 'a list \<Rightarrow> 'a list" where
  "without i xs = take i xs @ drop (Suc i) xs"

definition awaits :: "stage \<Rightarrow> nat \<Rightarrow> stage list \<Rightarrow> bool" where
  "awaits g i ts \<longleftrightarrow> i < length ts \<and> ts ! i = g"

fun step :: "(json \<Rightarrow> jsnum) \<Rightarrow> int \<times> event \<Rightarrow> system \<Rightarrow> system" where
  "step h (now, Toggle) s =
     (case togglePanel (page s) of
        (w, None) \<Rightarrow> s\<lparr>page := w\<rparr>
      | (w, Some q) \<Rightarrow>
          s\<lparr>page := w, greetings := greetings s @ [AwaitFetch], sent := sent s @ [q]\<rparr>)"
| "step h (now, Edit t) s = s\<lparr>page := (page s)\<lparr>input_value := t\<rparr>\<rparr>"
| "step h (now, Submit) s =
     (case sendMessage h now (page s) of
        Inl (e, w) \<Rightarrow> s\<lparr>page := w\<rparr>
      | Inr (w, None) \<Rightarrow> s\<lparr>page := w\<rparr>
      | Inr (w, Some q) \<Rightarrow>
          s\<lparr>page := w, sends := sends s @ [AwaitFetch], sent := sent s @ [q]\<rparr>)"
| "step h (now, GreetFetched i r) s =
     (if awaits AwaitFetch i (greetings s)
      then (case fetchGreeting_fetched r (page s) of
              None \<Rightarrow> s\<lparr>greetings := (greetings s)[i := AwaitJson]\<rparr>
            | Some out \<Rightarrow> s\<lparr>page := state_of out, greetings := without i (greetings s)\<rparr>)
      else s)"
| "step h (now, GreetParsed i j) s =
     (if awaits AwaitJson i (greetings s)
      then s\<lparr>page := state_of (fetchGreeting_parsed j now (page s)),
             greetings := without i (greetings s)\<rparr>
      else s)"
| "step h (now, ChatFetched i r) s =
     (if awaits AwaitFetch i (sends s)
      then (case sendMessage_fetched r (page s) of
              None \<Rightarrow> s\<lparr>sends := (sends s)[i := AwaitJson]\<rparr>
            | Some out \<Rightarrow> s\<lparr>page := state_of out, sends := without i (sends s)\<rparr>)
      else s)"
| "step h (now, ChatParsed i j) s =
     (if awaits AwaitJson i (sends s)
      then s\<lparr>page := state_of (sendMessage_parsed j now (page s)),
             sends := without i (sends s)\<rparr>
      else s)"

fun run :: "(json \<Rightarrow> jsnum) \<Rightarrow> (int \<times> event) list \<Rightarrow> system \<Rightarrow> system" where
  "run h [] s = s"
| "run h (e # es) s = run h es (step h e s)"

text \<open>The page once the script has run: \<open>init\<close> at time \<open>now\<close> over the storage \<open>st\<close>.\<close>

definition loaded :: "(json \<Rightarrow> jsnum) \<Rightarrow> int \<Rightarrow> storage \<Rightarrow> system" where
  "loaded h now st = \<lparr>page = init h now st, greetings = [], sends = [], sent = []\<rparr>"

section \<open>Notions of the properties\<close>

subsection \<open>Session payloads\<close>

text \<open>A parsed value with the \<open>ts\<close> of a session payload: an object with that property.\<close>

fun has_ts :: "json \<Rightarrow> bool" where
  "has_ts (JObj ps) = (map_of ps ''ts'' \<noteq> None)"
| "has_ts v = False"

subsection \<open>Tags\<close>

text \<open>
  The texts with \<open><\<close> in the replacement strings of \<open>renderMarkdown\<close>, and those of them
  that the substitutions before the links write.
\<close>

definition TAGS :: "string list" where
  \<open>TAGS = [''<h1>'', ''</h1>'', ''<h2>'', ''</h2>'', ''<h3>'', ''</h3>'',
     ''<strong>'', ''</strong>'', ''<em>'', ''</em>'', ''<a href="'', ''</a>'',
     ''<code>'', ''</code>'', ''<li>'', ''</li>'', ''<ul>'', ''</ul>'',
     ''<p>'', ''</p>'', ''<br>'']\<close>

definition EARLY_TAGS :: "string list" where
  "EARLY_TAGS = [''<h1>'', ''</h1>'', ''<h2>'', ''</h2>'', ''<h3>'', ''</h3>'',
     ''<strong>'', ''</strong>'', ''<em>'', ''</em>'']"

text \<open>Every \<open><\<close> of the string starts one of the tags \<open>T\<close>.\<close>

fun safe :: "string list \<Rightarrow> string \<Rightarrow> bool" where
  "safe T [] = True"
| "safe T (c # cs) = ((c = CHR ''<'' \<longrightarrow> (\<exists>t \<in> set T. prefix t (c # cs))) \<and> safe T cs)"

definition tagchar :: "string list \<Rightarrow> char \<Rightarrow> bool" where
  "tagchar T c \<longleftrightarrow> c \<in> set (concat (map tl T))"

text \<open>
  The characters at which the substitutions cut the text: none of them is inside a tag.
\<close>

definition DELIMS :: string where
  "DELIMS = [CHR ''<'', CHR ''*'', CHR ''['', CHR '']'', CHR '')'', CHR 0x60, CHR 0x0A, CHR 0x0D]"

definition inert :: "string list \<Rightarrow> bool" where
  "inert T \<longleftrightarrow>
     list_all (\<lambda>t. t \<noteq> [] \<and> hd t = CHR ''<'') T \<and> list_all (\<lambda>c. \<not> tagchar T c) DELIMS"

subsection \<open>Anchors\<close>

text \<open>
  The two texts of the anchor template around the URL, as they occur in a string from
  left to right: the opening \<open>A_OPEN\<close> and the attributes \<open>A_ATTRS\<close>.
\<close>

datatype mark = Open | Attrs

fun marks :: "string \<Rightarrow> mark list" where
  "marks [] = []"
| "marks (c # cs) =
     (if prefix A_OPEN (c # cs) then Open # marks cs
      else if prefix A_ATTRS (c # cs) then Attrs # marks cs
      else marks cs)"

text \<open>
  Reading a string from left to right: every opening of an anchor is followed by the
  attributes before the next opening and before the end. \<open>pending\<close> says that an opening
  has been read and its attributes have not.
\<close>

fun attrs_follow :: "bool \<Rightarrow> string \<Rightarrow> bool" where
  "attrs_follow pending [] = (\<not> pending)"
| "attrs_follow pending (c # cs) =
     (if prefix A_OPEN (c # cs) then \<not> pending \<and> attrs_follow True cs
      else if prefix A_ATTRS (c # cs) then attrs_follow False cs
      else attrs_follow pending cs)"

fun okm :: "bool \<Rightarrow> mark list \<Rightarrow> bool" where
  "okm pending [] = (\<not> pending)"
| "okm pending (Open # ms) = (\<not> pending \<and> okm True ms)"
| "okm pending (Attrs # ms) = okm False ms"

text \<open>The characters inside the two texts, after their first.\<close>

definition mid :: "char \<Rightarrow> bool" where
  "mid c \<longleftrightarrow> c \<in> set (tl A_OPEN) \<or> c \<in> set (tl A_ATTRS)"

text \<open>The pieces of \<open>split\<close>: a piece that is no separator is the last piece or stands before one.\<close>

definition issep :: "string \<Rightarrow> bool" where
  "issep p \<longleftrightarrow> p = ''<li>'' \<or> p = ''</li>''"

fun sep_chain :: "string list \<Rightarrow> bool" where
  "sep_chain [] = True"
| "sep_chain [p] = True"
| "sep_chain (p # q # ps) = ((issep p \<or> issep q) \<and> sep_chain (q # ps))"

text \<open>Whether the link pattern matches somewhere in the string.\<close>

fun has_link :: "string \<Rightarrow> bool" where
  "has_link [] = False"
| "has_link (c # cs) = (link_at (c # cs) \<noteq> None \<or> has_link cs)"

text \<open>The characters of the link pattern.\<close>

definition bracket :: "char \<Rightarrow> bool" where
  "bracket c \<longleftrightarrow> c = CHR ''['' \<or> c = CHR '']'' \<or> c = CHR ''('' \<or> c = CHR '')''"

definition plain :: "string \<Rightarrow> bool" where
  "plain w \<longleftrightarrow> list_all (\<lambda>c. \<not> bracket c) w"

text \<open>
  What the substitutions before the links do to a string: they keep characters, put a
  text without brackets in the place of another, neither of them empty, and append a
  text without brackets.
\<close>

inductive ed :: "string \<Rightarrow> string \<Rightarrow> bool" where
  ed_end: "plain w \<Longrightarrow> ed [] w"
| ed_keep: "ed s s' \<Longrightarrow> ed (c # s) (c # s')"
| ed_sub: "plain (c # d) \<Longrightarrow> plain w \<Longrightarrow> w \<noteq> [] \<Longrightarrow> ed s s' \<Longrightarrow> ed ((c # d) @ s) (w @ s')"

subsection \<open>Requests\<close>

text \<open>The two flags of the module state that guard the requests.\<close>

definition flags :: "widget \<Rightarrow> bool \<times> bool" where
  "flags w = (isLoading w, hasGreeted w)"

text \<open>The number of greeting requests issued so far.\<close>

definition greets_sent :: "system \<Rightarrow> nat" where
  "greets_sent s = length (filter (\<lambda>q. q = GET_greet) (sent s))"

text \<open>
  One request to \<open>/chat\<close> is awaited while \<open>isLoading\<close> and none otherwise; one greeting has
  been requested once \<open>hasGreeted\<close> and none before.
\<close>

definition inv :: "system \<Rightarrow> bool" where
  "inv s \<longleftrightarrow>
     length (sends s) = (if isLoading (page s) then 1 else 0) \<and>
     greets_sent s = (if hasGreeted (page s) then 1 else 0)"

section \<open>Properties\<close>

subsection \<open>Session store\<close>

lemma getSession_storage: "snd (getSession h now st) = st"
  by (simp add: getSession_def split: sum.splits option.splits)

lemma getSession_payload:
  assumes "available st" and "map_of (items st) STORAGE_KEY = Some (Json (JObj ps))"
    and "map_of ps ''ts'' = Some (JNum ts)"
  shows "getSession h now st =
           (if now - ts < SESSION_TTL then (map_of ps ''id'', st) else (Some JNull, st))"
  using assms by (simp add: getSession_def getSession_try_def getItem_def)

lemma getSession_missing:
  "map_of (items st) STORAGE_KEY = None \<Longrightarrow> getSession h now st = (Some JNull, st)"
  by (simp add: getSession_def getSession_try_def getItem_def)

lemma getSession_garbled:
  "map_of (items st) STORAGE_KEY = Some Garbled \<Longrightarrow> getSession h now st = (Some JNull, st)"
  by (simp add: getSession_def getSession_try_def getItem_def)

lemma getSession_unavailable:
  "\<not> available st \<Longrightarrow> getSession h now st = (Some JNull, st)"
  by (simp add: getSession_def getSession_try_def getItem_def)

lemma getSession_no_ts:
  assumes "map_of (items st) STORAGE_KEY = Some (Json v)" and "\<not> has_ts v"
  shows "getSession h now st = (Some JNull, st)"
proof (cases "get_prop v ''ts''")
  case (Inl e)
  then show ?thesis using assms(1)
    by (simp add: getSession_def getSession_try_def getItem_def)
next
  case (Inr x)
  with assms(2) have "x = None" by (cases v) auto
  with Inr show ?thesis using assms(1)
    by (simp add: getSession_def getSession_try_def getItem_def)
qed

text \<open>
  C2. Over a storage that can be read and holds, under the widget's key, an object with
  a numeric \<open>ts\<close>: \<open>getSession\<close> returns the object's \<open>id\<close> when \<open>now - ts < SESSION_TTL\<close>
  and \<open>null\<close> when \<open>now - ts \<ge> SESSION_TTL\<close>. It returns \<open>null\<close> when the key is missing,
  when the stored text does not parse, when the parsed value is no object with a \<open>ts\<close>,
  and when the storage cannot be read. In every case the storage is left as it was, so a
  stale entry is not deleted. \<open>SESSION_TTL\<close> is 24 hours in milliseconds.
\<close>

theorem getSession_fresh_stale_malformed:
  "SESSION_TTL = 86400000 \<and>
   (available st \<and> map_of (items st) STORAGE_KEY = Some (Json (JObj ps)) \<and>
      map_of ps ''ts'' = Some (JNum ts) \<and> now - ts < SESSION_TTL
      \<longrightarrow> getSession h now st = (map_of ps ''id'', st)) \<and>
   (available st \<and> map_of (items st) STORAGE_KEY = Some (Json (JObj ps)) \<and>
      map_of ps ''ts'' = Some (JNum ts) \<and> now - ts \<ge> SESSION_TTL
      \<longrightarrow> getSession h now st = (Some JNull, st)) \<and>
   (map_of (items st) STORAGE_KEY = None \<longrightarrow> getSession h now st = (Some JNull, st)) \<and>
   (map_of (items st) STORAGE_KEY = Some Garbled \<longrightarrow> getSession h now st = (Some JNull, st)) \<and>
   (map_of (items st) STORAGE_KEY = Some (Json v) \<and> \<not> has_ts v
      \<longrightarrow> getSession h now st = (Some JNull, st)) \<and>
   (\<not> available st \<longrightarrow> getSession h now st = (Some JNull, st)) \<and>
   snd (getSession h now st) = st"
proof (intro conjI impI)
  show "SESSION_TTL = 86400000" by (simp add: SESSION_TTL_def)
  show "snd (getSession h now st) = st" by (rule getSession_storage)
qed (simp_all add: getSession_payload getSession_missing getSession_garbled getSession_no_ts
      getSession_unavailable)

theorem getSession_fresh_stale_malformed_witness:
  "getSession (\<lambda>v. NaN) 86400999
     \<lparr>items = [(STORAGE_KEY, Json (JObj [(''id'', JStr ''s1''), (''ts'', JNum 1000)]))],
      available = True, full = False\<rparr> =
     (Some (JStr ''s1''),
      \<lparr>items = [(STORAGE_KEY, Json (JObj [(''id'', JStr ''s1''), (''ts'', JNum 1000)]))],
       available = True, full = False\<rparr>) \<and>
   getSession (\<lambda>v. NaN) 86401000
     \<lparr>items = [(STORAGE_KEY, Json (JObj [(''id'', JStr ''s1''), (''ts'', JNum 1000)]))],
      available = True, full = False\<rparr> =
     (Some JNull,
      \<lparr>items = [(STORAGE_KEY, Json (JObj [(''id'', JStr ''s1''), (''ts'', JNum 1000)]))],
       available = True, full = False\<rparr>) \<and>
   getSession (\<lambda>v. NaN) 5 \<lparr>items = [], available = True, full = False\<rparr> =
     (Some JNull, \<lparr>items = [], available = True, full = False\<rparr>) \<and>
   getSession (\<lambda>v. NaN) 5 \<lparr>items = [(STORAGE_KEY, Garbled)], available = True, full = False\<rparr> =
     (Some JNull, \<lparr>items = [(STORAGE_KEY, Garbled)], available = True, full = False\<rparr>) \<and>
   getSession (\<lambda>v. NaN) 5
     \<lparr>items = [(STORAGE_KEY, Json (JObj [(''id'', JStr ''s1'')]))], available = True, full = False\<rparr> =
     (Some JNull,
      \<lparr>items = [(STORAGE_KEY, Json (JObj [(''id'', JStr ''s1'')]))], available = True, full = False\<rparr>) \<and>
   getSession (\<lambda>v. NaN) 5 \<lparr>items = [], available = False, full = False\<rparr> =
     (Some JNull, \<lparr>items = [], available = False, full = False\<rparr>)"
proof -
  let ?p = "[(''id'', JStr ''s1''), (''ts'', JNum 1000)]"
  let ?st = "\<lparr>items = [(STORAGE_KEY, Json (JObj ?p))], available = True, full = False\<rparr>"
  have fresh: "available ?st \<and> map_of (items ?st) STORAGE_KEY = Some (Json (JObj ?p)) \<and>
      map_of ?p ''ts'' = Some (JNum 1000) \<and> (86400999::int) - 1000 < SESSION_TTL"
    by (simp add: SESSION_TTL_def)
  have stale: "available ?st \<and> map_of (items ?st) STORAGE_KEY = Some (Json (JObj ?p)) \<and>
      map_of ?p ''ts'' = Some (JNum 1000) \<and> (86401000::int) - 1000 \<ge> SESSION_TTL"
    by (simp add: SESSION_TTL_def)
  let ?e = "\<lparr>items = [], available = True, full = False\<rparr>"
  let ?g = "\<lparr>items = [(STORAGE_KEY, Garbled)], available = True, full = False\<rparr>"
  let ?n = "\<lparr>items = [(STORAGE_KEY, Json (JObj [(''id'', JStr ''s1'')]))], available = True, full = False\<rparr>"
  let ?u = "\<lparr>items = [], available = False, full = False\<rparr>"
  have missing: "map_of (items ?e) STORAGE_KEY = None" by simp
  have garbled: "map_of (items ?g) STORAGE_KEY = Some Garbled" by simp
  have no_ts: "map_of (items ?n) STORAGE_KEY = Some (Json (JObj [(''id'', JStr ''s1'')])) \<and>
      \<not> has_ts (JObj [(''id'', JStr ''s1'')])" by simp
  have unavailable: "\<not> available ?u" by simp
  from fresh getSession_fresh_stale_malformed[of ?st ?p 1000 86400999 "\<lambda>v. NaN"]
  have 1: "getSession (\<lambda>v. NaN) 86400999 ?st = (map_of ?p ''id'', ?st)" by blast
  from stale getSession_fresh_stale_malformed[of ?st ?p 1000 86401000 "\<lambda>v. NaN"]
  have 2: "getSession (\<lambda>v. NaN) 86401000 ?st = (Some JNull, ?st)" by blast
  from missing getSession_fresh_stale_malformed[of ?e _ _ 5 "\<lambda>v. NaN"]
  have 3: "getSession (\<lambda>v. NaN) 5 ?e = (Some JNull, ?e)" by blast
  from garbled getSession_fresh_stale_malformed[of ?g _ _ 5 "\<lambda>v. NaN"]
  have 4: "getSession (\<lambda>v. NaN) 5 ?g = (Some JNull, ?g)" by blast
  from no_ts getSession_fresh_stale_malformed[of ?n _ _ 5 "\<lambda>v. NaN" "JObj [(''id'', JStr ''s1'')]"]
  have 5: "getSession (\<lambda>v. NaN) 5 ?n = (Some JNull, ?n)" by blast
  from unavailable getSession_fresh_stale_malformed[of ?u _ _ 5 "\<lambda>v. NaN"]
  have 6: "getSession (\<lambda>v. NaN) 5 ?u = (Some JNull, ?u)" by blast
  from 1 2 3 4 5 6 show ?thesis by simp
qed

text \<open>
  C10. When the storage accepts the write, \<open>getSession\<close> at a time less than
  \<open>SESSION_TTL\<close> after the \<open>saveSession\<close> of an id returns that id, whatever the id.
\<close>

theorem session_round_trip:
  "available st \<Longrightarrow> \<not> full st \<Longrightarrow> now' - now < SESSION_TTL \<Longrightarrow>
   fst (getSession h now' (saveSession i now st)) = i"
  by (cases i)
    (simp_all add: getSession_def getSession_try_def getItem_def saveSession_def setItem_def
      session_text_def update_conv')

theorem session_round_trip_witness:
  "fst (getSession (\<lambda>v. NaN) 86400999
          (saveSession (Some (JStr ''s1'')) 1000 \<lparr>items = [], available = True, full = False\<rparr>)) =
     Some (JStr ''s1'')"
proof -
  let ?st = "\<lparr>items = [], available = True, full = False\<rparr>"
  have "available ?st" and "\<not> full ?st" and "(86400999::int) - 1000 < SESSION_TTL"
    by (simp_all add: SESSION_TTL_def)
  then show ?thesis by (rule session_round_trip)
qed

subsection \<open>\<open>renderMarkdown\<close> on examples\<close>

text \<open>
  C9. \<open>renderMarkdown\<close> of the empty string, of \<open>null\<close>, of \<open>undefined\<close> and of every other
  falsy value is the empty string: there is no paragraph around it.
\<close>

theorem renderMarkdown_falsy:
  "renderMarkdown (Some (JStr [])) = Inr [] \<and> renderMarkdown (Some JNull) = Inr [] \<and>
   renderMarkdown None = Inr [] \<and> (\<forall>v. \<not> truthy v \<longrightarrow> renderMarkdown v = Inr [])"
  by (simp add: renderMarkdown_def)

theorem renderMarkdown_falsy_witness:
  "\<not> truthy (Some (JNum 0)) \<and> renderMarkdown (Some (JNum 0)) = Inr []"
proof -
  have f: "\<not> truthy (Some (JNum 0))" by simp
  from renderMarkdown_falsy have "\<not> truthy (Some (JNum 0)) \<longrightarrow> renderMarkdown (Some (JNum 0)) = Inr []"
    by blast
  with f show ?thesis by simp
qed

lemma blank_not_li:
  assumes "trim (replace_lit ''<br>'' [] s) = []"
  shows "s \<noteq> ''<li>''" "s \<noteq> ''</li>''"
proof -
  have "trim (replace_lit ''<br>'' [] ''<li>'') \<noteq> []" "trim (replace_lit ''<br>'' [] ''</li>'') \<noteq> []"
    by code_simp+
  with assms show "s \<noteq> ''<li>''" "s \<noteq> ''</li>''" by auto
qed

lemma nextLi_blank:
  "(\<forall>s\<in>set seps. trim (replace_lit ''<br>'' [] s) = []) \<Longrightarrow> nextLi (seps @ rest) = nextLi rest"
  by (induction seps) (simp_all add: Let_def)

lemma group_li_blank:
  "(\<forall>s\<in>set seps. trim (replace_lit ''<br>'' [] s) = [])
   \<Longrightarrow> group_li b (seps @ rest) = concat seps @ group_li b rest"
  by (induction seps) (simp_all add: blank_not_li)

text \<open>
  C4. \<open>renderMarkdown("- a\n- b")\<close> is one paragraph that holds one \<open><ul>\<close> with the two
  items: the line break between the items does not end the list. In the grouping loop, the
  first \<open><li>\<close> opens the container and a later one does not; after \<open></li>\<close>, pieces that
  are empty once their \<open><br>\<close> are removed and they are trimmed are copied and the container
  stays open if \<open><li>\<close> follows them; it is closed, right after that \<open></li>\<close>, if another
  piece that is not empty follows them or if the pieces end.
\<close>

theorem renderMarkdown_two_items:
  "renderMarkdown (Some (JStr ''- a\<newline>- b'')) = Inr ''<p><ul><li>a</li><li>b</li></ul></p>'' \<and>
   renderMarkdown (Some (JStr ''- a\<newline>- b\<newline>- c\<newline>\<newline>text''))
     = Inr ''<p><ul><li>a</li><li>b</li><li>c</li></ul></p><p>text</p>'' \<and>
   (\<forall>rest. group_li False ([''<li>''] @ rest) = ''<ul><li>'' @ group_li True rest) \<and>
   (\<forall>rest. group_li True ([''<li>''] @ rest) = ''<li>'' @ group_li True rest) \<and>
   (\<forall>seps rest. (\<forall>s\<in>set seps. trim (replace_lit ''<br>'' [] s) = [])
      \<longrightarrow> group_li True ([''</li>''] @ seps @ [''<li>''] @ rest)
          = ''</li>'' @ concat seps @ ''<li>'' @ group_li True rest) \<and>
   (\<forall>seps tok rest. (\<forall>s\<in>set seps. trim (replace_lit ''<br>'' [] s) = []) \<and>
        trim (replace_lit ''<br>'' [] tok) \<noteq> [] \<and> trim (replace_lit ''<br>'' [] tok) \<noteq> ''<li>''
      \<longrightarrow> group_li True ([''</li>''] @ seps @ [tok] @ rest)
          = ''</li></ul>'' @ concat seps @ group_li False ([tok] @ rest)) \<and>
   (\<forall>seps. (\<forall>s\<in>set seps. trim (replace_lit ''<br>'' [] s) = [])
      \<longrightarrow> group_li True ([''</li>''] @ seps) = ''</li></ul>'' @ concat seps)"
proof (intro conjI allI impI)
  show "renderMarkdown (Some (JStr ''- a\<newline>- b'')) = Inr ''<p><ul><li>a</li><li>b</li></ul></p>''"
    by code_simp
  show "renderMarkdown (Some (JStr ''- a\<newline>- b\<newline>- c\<newline>\<newline>text''))
     = Inr ''<p><ul><li>a</li><li>b</li><li>c</li></ul></p><p>text</p>''"
    by code_simp
next
  fix seps rest
  assume b: "\<forall>s\<in>set seps. trim (replace_lit ''<br>'' [] s) = []"
  have "trim (replace_lit ''<br>'' [] ''<li>'') = ''<li>''" by code_simp
  then have "nextLi (seps @ ''<li>'' # rest)"
    using nextLi_blank[OF b, of "''<li>'' # rest"] by (simp add: Let_def)
  then show "group_li True ([''</li>''] @ seps @ [''<li>''] @ rest)
          = ''</li>'' @ concat seps @ ''<li>'' @ group_li True rest"
    using group_li_blank[OF b, of True "''<li>'' # rest"] by simp
next
  fix seps tok rest
  assume a: "(\<forall>s\<in>set seps. trim (replace_lit ''<br>'' [] s) = []) \<and>
        trim (replace_lit ''<br>'' [] tok) \<noteq> [] \<and> trim (replace_lit ''<br>'' [] tok) \<noteq> ''<li>''"
  then have b: "\<forall>s\<in>set seps. trim (replace_lit ''<br>'' [] s) = []" by simp
  from a have "\<not> nextLi (seps @ tok # rest)"
    using nextLi_blank[OF b, of "tok # rest"] by (simp add: Let_def)
  then show "group_li True ([''</li>''] @ seps @ [tok] @ rest)
          = ''</li></ul>'' @ concat seps @ group_li False ([tok] @ rest)"
    using group_li_blank[OF b, of False "tok # rest"] by simp
next
  fix seps
  assume b: "\<forall>s\<in>set seps. trim (replace_lit ''<br>'' [] s) = []"
  have "\<not> nextLi seps" using nextLi_blank[OF b, of "[]"] by simp
  then show "group_li True ([''</li>''] @ seps) = ''</li></ul>'' @ concat seps"
    using group_li_blank[OF b, of False "[]"] by simp
qed simp_all

theorem renderMarkdown_two_items_witness:
  "group_li True [''</li>'', ''<br>'', '' '', ''<li>'', ''b'', ''</li>'', ''<br>'', ''text'']
     = ''</li><br> <li>b</li></ul><br>text'' \<and>
   group_li True [''</li>'', ''<br>''] = ''</li></ul><br>''"
proof -
  have b: "\<forall>s\<in>set [''<br>'', '' '']. trim (replace_lit ''<br>'' [] s) = []"
          "\<forall>s\<in>set [''<br>'']. trim (replace_lit ''<br>'' [] s) = []"
    by code_simp+
  have t: "trim (replace_lit ''<br>'' [] ''text'') \<noteq> []"
          "trim (replace_lit ''<br>'' [] ''text'') \<noteq> ''<li>''"
    by code_simp+
  note T = renderMarkdown_two_items
  from T b(1) have 1: "group_li True ([''</li>''] @ [''<br>'', '' ''] @ [''<li>''] @ [''b'', ''</li>'', ''<br>'', ''text''])
     = ''</li>'' @ concat [''<br>'', '' ''] @ ''<li>'' @ group_li True [''b'', ''</li>'', ''<br>'', ''text'']"
    by blast
  from T b(2) t have 2: "group_li True ([''</li>''] @ [''<br>''] @ [''text''] @ [])
     = ''</li></ul>'' @ concat [''<br>''] @ group_li False ([''text''] @ [])"
    by blast
  from T b(2) have 3: "group_li True ([''</li>''] @ [''<br>'']) = ''</li></ul>'' @ concat [''<br>'']"
    by blast
  have 4: "group_li True (''b'' # ls) = ''b'' @ group_li True ls" for ls by simp
  have 5: "group_li False [''text''] = ''text''" by simp
  from 1 2 3 4 5 show ?thesis by simp
qed

subsection \<open>Tags in the output\<close>

lemma inert_TAGS: "inert TAGS"
  by code_simp

lemma inert_EARLY_TAGS: "inert EARLY_TAGS"
  by code_simp

lemma TAGS_shape:
  "inert T \<Longrightarrow> t \<in> set T \<Longrightarrow> \<exists>t'. t = CHR ''<'' # t' \<and> (\<forall>c \<in> set t'. tagchar T c)"
proof -
  assume i: "inert T" and t: "t \<in> set T"
  then have "t \<noteq> []" "hd t = CHR ''<''" by (auto simp: inert_def list_all_iff)
  then have "t = CHR ''<'' # tl t" by (cases t) auto
  moreover from t have "\<forall>c \<in> set (tl t). tagchar T c" by (auto simp: tagchar_def)
  ultimately show ?thesis by blast
qed

lemma not_tagchar:
  assumes "inert T"
  shows "\<not> tagchar T (CHR ''<'')" "\<not> tagchar T (CHR ''*'')" "\<not> tagchar T (CHR ''['')"
    "\<not> tagchar T (CHR '']'')" "\<not> tagchar T (CHR '')'')" "\<not> tagchar T (CHR 0x60)"
    "\<not> tagchar T (CHR 0x0A)" "\<not> tagchar T (CHR 0x0D)"
  using assms by (simp_all add: inert_def DELIMS_def)

lemma safe_append: "safe T a \<Longrightarrow> safe T b \<Longrightarrow> safe T (a @ b)"
proof (induction a)
  case Nil
  then show ?case by simp
next
  case (Cons x a)
  then have "safe T (a @ b)" by simp
  moreover have "prefix t ((x # a) @ b)" if "prefix t (x # a)" for t
    using that by (rule prefix_prefix)
  ultimately show ?case using Cons.prems(1) by auto
qed

lemma safe_suffix: "safe T (a @ b) \<Longrightarrow> safe T b"
  by (induction a) auto

lemma prefix_cut: "prefix t (a @ c # b) \<Longrightarrow> c \<notin> set t \<Longrightarrow> prefix t a"
  by (auto simp: prefix_append prefix_Cons)

lemma safe_cut: "inert T \<Longrightarrow> safe T (a @ c # b) \<Longrightarrow> \<not> tagchar T c \<Longrightarrow> safe T a"
proof (induction a)
  case Nil
  then show ?case by simp
next
  case (Cons x a)
  then have sa: "safe T a" by simp
  show ?case
  proof (cases "x = CHR ''<''")
    case False
    with sa show ?thesis by simp
  next
    case True
    with Cons.prems obtain t where t: "t \<in> set T" "prefix t (x # a @ c # b)" by auto
    from TAGS_shape[OF Cons.prems(1) t(1)] obtain t' where t': "t = CHR ''<'' # t'" "\<forall>c \<in> set t'. tagchar T c" by blast
    with t(2) True have "prefix t' (a @ c # b)" by simp
    moreover from t'(2) Cons.prems(3) have "c \<notin> set t'" by blast
    ultimately have "prefix t' a" by (rule prefix_cut)
    with t' True have "prefix t (x # a)" by simp
    with t(1) sa True show ?thesis by auto
  qed
qed

lemma safe_no_lt: "CHR ''<'' \<notin> set s \<Longrightarrow> safe T s"
  by (induction s) auto

text \<open>Keeping the head: a tag that starts the string still starts the result.\<close>

lemma safe_Cons:
  assumes "inert T" and "safe T (c # cs)" and "safe T cs'"
    and "\<And>t. (\<forall>x \<in> set t. tagchar T x) \<Longrightarrow> prefix t cs \<Longrightarrow> prefix t cs'"
  shows "safe T (c # cs')"
proof (cases "c = CHR ''<''")
  case False
  with assms(3) show ?thesis by simp
next
  case True
  with assms(2) obtain t where t: "t \<in> set T" "prefix t (c # cs)" by auto
  from TAGS_shape[OF assms(1) t(1)] obtain t' where t': "t = CHR ''<'' # t'" "\<forall>c \<in> set t'. tagchar T c" by blast
  with t(2) True have "prefix t' cs" by simp
  with assms(4) t'(2) have "prefix t' cs'" by blast
  with t' True have "prefix t (c # cs')" by simp
  with t(1) assms(3) show ?thesis by auto
qed


lemma prefix_drop: "prefix p s \<Longrightarrow> p @ drop (length p) s = s"
  by (auto simp: prefix_def)

lemmas nt = not_tagchar[OF inert_TAGS]

subsubsection \<open>Escaping\<close>

lemma replace_lit_single:
  "replace_lit [p] rep s = concat (map (\<lambda>c. if c = p then rep else [c]) s)"
  by (induction s) auto

lemma escape_html_no_lt: "CHR ''<'' \<notin> set (escape_html s)"
  by (auto simp: escape_html_def replace_lit_single split: if_splits)

lemma escape_html_no_gt: "CHR ''>'' \<notin> set (escape_html s)"
  by (auto simp: escape_html_def replace_lit_single split: if_splits)

subsubsection \<open>Literal substitutions\<close>

lemma prefix_replace_lit:
  "prefix t cs \<Longrightarrow> pat \<noteq> [] \<Longrightarrow> hd pat \<notin> set t \<Longrightarrow> prefix t (replace_lit pat rep cs)"
proof (induction t arbitrary: cs)
  case Nil
  then show ?case by simp
next
  case (Cons x t)
  then obtain cs' where cs: "cs = x # cs'" "prefix t cs'" by (cases cs) auto
  from Cons.prems have "\<not> prefix pat (x # cs')" by (cases pat) auto
  with cs Cons show ?case by simp
qed

lemma safe_replace_lit:
  "pat \<noteq> [] \<Longrightarrow> \<not> tagchar TAGS (hd pat) \<Longrightarrow> safe TAGS rep \<Longrightarrow> safe TAGS s \<Longrightarrow> safe TAGS (replace_lit pat rep s)"
proof (induction pat rep s rule: replace_lit.induct)
  case (1 pat rep)
  then show ?case by simp
next
  case (2 pat rep c cs)
  note s = \<open>safe TAGS (c # cs)\<close>
  show ?case
  proof (cases "prefix pat (c # cs)")
    case True
    then have "pat @ drop (length pat) (c # cs) = c # cs" by (rule prefix_drop)
    with s have "safe TAGS (drop (length pat) (c # cs))" by (metis safe_suffix)
    with True "2.prems" have "safe TAGS (replace_lit pat rep (drop (length pat) (c # cs)))"
      by (intro "2.IH"(1)) simp_all
    with \<open>safe TAGS rep\<close> have "safe TAGS (rep @ replace_lit pat rep (drop (length pat) (c # cs)))"
      by (rule safe_append)
    with True \<open>pat \<noteq> []\<close> show ?thesis by simp
  next
    case False
    from s have "safe TAGS cs" by simp
    with False "2.prems" have r: "safe TAGS (replace_lit pat rep cs)"
      by (intro "2.IH"(2)) simp_all
    have "safe TAGS (c # replace_lit pat rep cs)"
    proof (rule safe_Cons[OF inert_TAGS s r])
      fix t assume "\<forall>x \<in> set t. tagchar TAGS x" and "prefix t cs"
      with "2.prems"(1,2) show "prefix t (replace_lit pat rep cs)"
        by (intro prefix_replace_lit) auto
    qed
    with False show ?thesis by simp
  qed
qed

subsubsection \<open>Whole lines\<close>

lemma LineTerminator_not_tagchar: "inert T \<Longrightarrow> LineTerminator c \<Longrightarrow> \<not> tagchar T c"
  by (auto simp: LineTerminator_def not_tagchar)

lemma safe_map_lines:
  assumes "inert T" and "\<And>l. safe T l \<Longrightarrow> safe T (f l)"
  shows "safe T (l @ s) \<Longrightarrow> safe T (map_lines f l s)"
proof (induction s arbitrary: l)
  case Nil
  with assms(2) show ?case by simp
next
  case (Cons c s)
  show ?case
  proof (cases "LineTerminator c")
    case True
    with Cons.prems have "safe T l" using assms(1) by (metis safe_cut LineTerminator_not_tagchar)
    then have 1: "safe T (f l)" by (rule assms(2))
    from Cons.prems have "safe T (c # s)" by (rule safe_suffix)
    then have "safe T ([] @ s)" by simp
    then have "safe T (map_lines f [] s)" by (rule Cons.IH)
    moreover from True have "c \<noteq> CHR ''<''" by (auto simp: LineTerminator_def)
    ultimately have "safe T (c # map_lines f [] s)" by simp
    with 1 True show ?thesis by (simp add: safe_append)
  next
    case False
    with Cons.IH[of "l @ [c]"] Cons.prems show ?thesis by simp
  qed
qed

lemma safe_wrap_line: "safe T op \<Longrightarrow> safe T cl \<Longrightarrow> safe T l \<Longrightarrow> safe T (wrap_line mark op cl l)"
proof -
  assume a: "safe T op" "safe T cl" "safe T l"
  have "safe T (take (length mark) l @ drop (length mark) l)" using a(3) by simp
  then have "safe T (drop (length mark) l)" by (rule safe_suffix)
  with a show ?thesis by (simp add: wrap_line_def safe_append)
qed

lemma safe_replace_line:
  "inert T \<Longrightarrow> safe T op \<Longrightarrow> safe T cl \<Longrightarrow> safe T s \<Longrightarrow>
   safe T (replace_line mark op cl s)"
  unfolding replace_line_def by (rule safe_map_lines) (simp_all add: safe_wrap_line)

subsubsection \<open>Emphasis\<close>

lemma lazy_body_decomp: "lazy_body d s = Some (b, r) \<Longrightarrow> s = b @ d @ r"
  by (induction s arbitrary: b r) (auto split: if_splits option.splits simp: prefix_drop)

lemma prefix_replace_delim:
  "prefix t cs \<Longrightarrow> d \<noteq> [] \<Longrightarrow> hd d \<notin> set t \<Longrightarrow> prefix t (replace_delim d op cl cs)"
proof (induction t arbitrary: cs)
  case Nil
  then show ?case by simp
next
  case (Cons x t)
  then obtain cs' where cs: "cs = x # cs'" "prefix t cs'" by (cases cs) auto
  from Cons.prems have "\<not> prefix d (x # cs')" by (cases d) auto
  with cs Cons show ?case by simp
qed

lemma safe_replace_delim:
  "inert T \<Longrightarrow> d \<noteq> [] \<Longrightarrow> \<not> tagchar T (hd d) \<Longrightarrow> safe T op \<Longrightarrow> safe T cl \<Longrightarrow> safe T s \<Longrightarrow>
   safe T (replace_delim d op cl s)"
proof (induction d op cl s rule: replace_delim.induct)
  case (1 d op cl)
  then show ?case by simp
next
  case (2 d op cl c cs)
  note s = \<open>safe T (c # cs)\<close>
  have keep: "safe T (c # replace_delim d op cl cs)" if "safe T (replace_delim d op cl cs)"
  proof (rule safe_Cons[OF \<open>inert T\<close> s that])
    fix t assume "\<forall>x \<in> set t. tagchar T x" and "prefix t cs"
    with "2.prems"(2,3) show "prefix t (replace_delim d op cl cs)"
      by (intro prefix_replace_delim) auto
  qed
  from s have scs: "safe T cs" by simp
  show ?case
  proof (cases "prefix d (c # cs)")
    case False
    have "safe T (replace_delim d op cl cs)"
      by (rule "2.IH"(3)[OF False "2.prems"(1,2,3,4,5) scs])
    from keep[OF this] False show ?thesis by simp
  next
    case True
    show ?thesis
    proof (cases "lazy_body d (drop (length d) (c # cs))")
      case None
      have "safe T (replace_delim d op cl cs)"
        by (rule "2.IH"(1)[OF True None "2.prems"(1,2,3,4,5) scs])
      from keep[OF this] True None show ?thesis by simp
    next
      case (Some br)
      obtain b r where br: "br = (b, r)" by (cases br)
      from True have "d @ drop (length d) (c # cs) = c # cs" by (rule prefix_drop)
      with s have "safe T (drop (length d) (c # cs))" by (metis safe_suffix)
      moreover from Some br have eq: "drop (length d) (c # cs) = b @ d @ r"
        by (simp add: lazy_body_decomp)
      ultimately have s1: "safe T (b @ d @ r)" by simp
      from \<open>d \<noteq> []\<close> obtain p ps where d: "d = p # ps" by (cases d) auto
      with s1 "2.prems"(1,3) have sb: "safe T b" by (auto intro: safe_cut)
      from s1 have "safe T ((b @ d) @ r)" by simp
      then have "safe T r" by (rule safe_suffix)
      then have "safe T (replace_delim d op cl r)"
        by (rule "2.IH"(2)[OF True Some br[symmetric] "2.prems"(1,2,3,4,5)])
      with sb "2.prems"(4,5) have "safe T (op @ b @ cl @ replace_delim d op cl r)"
        by (intro safe_append)
      with True Some br show ?thesis by simp
    qed
  qed
qed


subsubsection \<open>Links and inline code\<close>

lemma link_at_decomp:
  "link_at s = Some (t, u, r) \<Longrightarrow> s = CHR ''['' # t @ CHR '']'' # CHR ''('' # u @ CHR '')'' # r"
proof -
  assume a: "link_at s = Some (t, u, r)"
  then obtain s1 where s: "s = CHR ''['' # s1"
    by (cases s) (auto simp: link_at_def split: if_splits)
  let ?r1 = "dropWhile (\<lambda>x. x \<noteq> CHR '']'') s1"
  let ?r2 = "drop 2 ?r1"
  let ?r3 = "dropWhile (\<lambda>x. x \<noteq> CHR '')'') ?r2"
  from a s have t: "t = takeWhile (\<lambda>x. x \<noteq> CHR '']'') s1" and p: "prefix '']('' ?r1"
    and u: "u = takeWhile (\<lambda>x. x \<noteq> CHR '')'') ?r2" and n: "?r3 \<noteq> []" and r: "r = tl ?r3"
    by (auto simp: link_at_def Let_def split: if_splits)
  from p have r1: "?r1 = CHR '']'' # CHR ''('' # ?r2" using prefix_drop[OF p] by (simp add: numeral_2_eq_2)
  from n have "hd ?r3 = CHR '')''" using hd_dropWhile[of "\<lambda>x. x \<noteq> CHR '')''" ?r2] by simp
  with n r have r3: "?r3 = CHR '')'' # r" by (cases ?r3) auto
  have "s1 = t @ ?r1" by (simp add: t)
  also have "?r1 = CHR '']'' # CHR ''('' # ?r2" by (rule r1)
  also have "?r2 = u @ ?r3" by (simp add: u)
  finally show ?thesis using s r3 by simp
qed

lemma link_at_head: "c \<noteq> CHR ''['' \<Longrightarrow> link_at (c # cs) = None"
  by (simp add: link_at_def)

lemma prefix_replace_links:
  "prefix t cs \<Longrightarrow> CHR ''['' \<notin> set t \<Longrightarrow> prefix t (replace_links cs)"
proof (induction t arbitrary: cs)
  case Nil
  then show ?case by simp
next
  case (Cons x t)
  then obtain cs' where cs: "cs = x # cs'" "prefix t cs'" by (cases cs) auto
  from Cons.prems have "x \<noteq> CHR ''[''" by auto
  then have "link_at (x # cs') = None" by (rule link_at_head)
  with cs Cons show ?case by simp
qed

lemma safe_A: "safe TAGS A_OPEN" "safe TAGS A_ATTRS" "safe TAGS ''</a>''"
  by code_simp+

lemma safe_replace_links: "safe TAGS s \<Longrightarrow> safe TAGS (replace_links s)"
proof (induction s rule: replace_links.induct)
  case 1
  then show ?case by simp
next
  case (2 c cs)
  note s = \<open>safe TAGS (c # cs)\<close>
  show ?case
  proof (cases "link_at (c # cs)")
    case None
    from s have "safe TAGS cs" by simp
    then have r: "safe TAGS (replace_links cs)" by (rule "2.IH"(1)[OF None])
    have "safe TAGS (c # replace_links cs)"
    proof (rule safe_Cons[OF inert_TAGS s r])
      fix t assume "\<forall>x \<in> set t. tagchar TAGS x" and "prefix t cs"
      then show "prefix t (replace_links cs)"
        using nt(3) by (intro prefix_replace_links) auto
    qed
    with None show ?thesis by simp
  next
    case (Some tur)
    obtain t u r where tur: "tur = (t, u, r)" by (cases tur)
    from Some tur have d: "c # cs = CHR ''['' # t @ CHR '']'' # CHR ''('' # u @ CHR '')'' # r"
      using link_at_decomp[of "c # cs" t u r] by simp
    with s have 1: "safe TAGS (t @ CHR '']'' # CHR ''('' # u @ CHR '')'' # r)" by simp
    then have st: "safe TAGS t" using nt(4) by (rule safe_cut[OF inert_TAGS])
    from 1 have "safe TAGS ((t @ '']('') @ u @ CHR '')'' # r)" by simp
    then have 2: "safe TAGS (u @ CHR '')'' # r)" by (rule safe_suffix)
    then have su: "safe TAGS u" using nt(5) by (rule safe_cut[OF inert_TAGS])
    from 2 have "safe TAGS ((u @ '')'') @ r)" by simp
    then have "safe TAGS r" by (rule safe_suffix)
    then have "safe TAGS (replace_links r)"
      using "2.IH"(2) Some tur by simp
    with st su have "safe TAGS (A_OPEN @ u @ A_ATTRS @ t @ ''</a>'' @ replace_links r)"
      by (intro safe_append safe_A)
    with Some tur show ?thesis by simp
  qed
qed

lemma code_at_decomp: "code_at s = Some (b, r) \<Longrightarrow> s = CHR 0x60 # b @ CHR 0x60 # r"
proof -
  assume a: "code_at s = Some (b, r)"
  then obtain s1 where s: "s = CHR 0x60 # s1"
    by (cases s) (auto simp: code_at_def split: if_splits)
  let ?r1 = "dropWhile (\<lambda>x. x \<noteq> CHR 0x60) s1"
  from a s have b: "b = takeWhile (\<lambda>x. x \<noteq> CHR 0x60) s1" and n: "?r1 \<noteq> []" and r: "r = tl ?r1"
    by (auto simp: code_at_def Let_def split: if_splits)
  from n have "hd ?r1 = CHR 0x60" using hd_dropWhile[of "\<lambda>x. x \<noteq> CHR 0x60" s1] by simp
  with n r have r1: "?r1 = CHR 0x60 # r" by (cases ?r1) auto
  have "s1 = b @ ?r1" by (simp add: b)
  with r1 s show ?thesis by simp
qed

lemma code_at_head: "c \<noteq> CHR 0x60 \<Longrightarrow> code_at (c # cs) = None"
  by (simp add: code_at_def)

lemma prefix_replace_code:
  "prefix t cs \<Longrightarrow> CHR 0x60 \<notin> set t \<Longrightarrow> prefix t (replace_code cs)"
proof (induction t arbitrary: cs)
  case Nil
  then show ?case by simp
next
  case (Cons x t)
  then obtain cs' where cs: "cs = x # cs'" "prefix t cs'" by (cases cs) auto
  from Cons.prems have "x \<noteq> CHR 0x60" by auto
  then have "code_at (x # cs') = None" by (rule code_at_head)
  with cs Cons show ?case by simp
qed

lemma safe_replace_code: "safe TAGS s \<Longrightarrow> safe TAGS (replace_code s)"
proof (induction s rule: replace_code.induct)
  case 1
  then show ?case by simp
next
  case (2 c cs)
  note s = \<open>safe TAGS (c # cs)\<close>
  show ?case
  proof (cases "code_at (c # cs)")
    case None
    from s have "safe TAGS cs" by simp
    then have r: "safe TAGS (replace_code cs)" by (rule "2.IH"(1)[OF None])
    have "safe TAGS (c # replace_code cs)"
    proof (rule safe_Cons[OF inert_TAGS s r])
      fix t assume "\<forall>x \<in> set t. tagchar TAGS x" and "prefix t cs"
      then show "prefix t (replace_code cs)"
        using nt(6) by (intro prefix_replace_code) auto
    qed
    with None show ?thesis by simp
  next
    case (Some br)
    obtain b r where br: "br = (b, r)" by (cases br)
    from Some br have d: "c # cs = CHR 0x60 # b @ CHR 0x60 # r"
      using code_at_decomp[of "c # cs" b r] by simp
    with s have 1: "safe TAGS (b @ CHR 0x60 # r)" by simp
    then have sb: "safe TAGS b" using nt(6) by (rule safe_cut[OF inert_TAGS])
    from 1 have "safe TAGS ((b @ [CHR 0x60]) @ r)" by simp
    then have "safe TAGS r" by (rule safe_suffix)
    then have "safe TAGS (replace_code r)"
      using "2.IH"(2) Some br by simp
    moreover have "safe TAGS ''<code>''" "safe TAGS ''</code>''" by code_simp+
    ultimately have "safe TAGS (''<code>'' @ b @ ''</code>'' @ replace_code r)"
      using sb by (intro safe_append)
    with Some br show ?thesis by simp
  qed
qed


subsubsection \<open>List items\<close>

lemma find_lit_decomp: "find_lit pat s = Some (b, r) \<Longrightarrow> s = b @ pat @ r"
  by (induction s arbitrary: b r) (auto split: if_splits option.splits simp: prefix_drop)

lemma li_at_decomp: "li_at s = Some (b, r) \<Longrightarrow> s = ''<li>'' @ b @ ''</li>'' @ r"
proof -
  assume a: "li_at s = Some (b, r)"
  then have p: "prefix ''<li>'' s" and f: "find_lit ''</li>'' (drop 4 s) = Some (b, r)"
    by (auto simp: li_at_def split: if_splits)
  from p obtain r0 where r0: "s = ''<li>'' @ r0" by (auto simp: prefix_def)
  then have "drop 4 s = r0" by simp
  with f have "find_lit ''</li>'' r0 = Some (b, r)" by simp
  then have "r0 = ''</li>'' @ r \<or> r0 = b @ ''</li>'' @ r" by (intro disjI2 find_lit_decomp)
  then have "r0 = b @ ''</li>'' @ r" using find_lit_decomp[OF \<open>find_lit ''</li>'' r0 = Some (b, r)\<close>] by blast
  with r0 show ?thesis by blast
qed

lemma skip_br_suffix: "\<exists>p. s = p @ skip_br s"
  by (metis skip_br_def append_Nil append_take_drop_id)

lemma safe_skip_br: "safe TAGS s \<Longrightarrow> safe TAGS (skip_br s)"
  using skip_br_suffix[of s] by (metis safe_suffix)

lemma strip_br_head: "c \<noteq> CHR ''<'' \<Longrightarrow> strip_br (c # cs) = c # strip_br cs"
  by (simp add: skip_br_def li_at_def)

lemma prefix_strip_br:
  "prefix t cs \<Longrightarrow> CHR ''<'' \<notin> set t \<Longrightarrow> prefix t (strip_br cs)"
proof (induction t arbitrary: cs)
  case Nil
  then show ?case by simp
next
  case (Cons x t)
  then obtain cs' where cs: "cs = x # cs'" "prefix t cs'" by (cases cs) auto
  from Cons.prems have "x \<noteq> CHR ''<''" by auto
  then have "strip_br (x # cs') = x # strip_br cs'" by (rule strip_br_head)
  with cs Cons show ?case by simp
qed

lemma safe_li: "safe TAGS ''<li>''" "safe TAGS ''</li>''" "safe TAGS ''<ul>''" "safe TAGS ''</ul>''" "safe TAGS ''<p>''"
  "safe TAGS ''</p>''" "safe TAGS ''<br>''" "safe TAGS ''</p><p>''"
  by code_simp+

lemma safe_strip_br: "safe TAGS s \<Longrightarrow> safe TAGS (strip_br s)"
proof (induction s rule: strip_br.induct)
  case 1
  then show ?case by simp
next
  case (2 c cs)
  note s = \<open>safe TAGS (c # cs)\<close>
  show ?case
  proof (cases "li_at (skip_br (c # cs))")
    case None
    from s have "safe TAGS cs" by simp
    then have r: "safe TAGS (strip_br cs)" by (rule "2.IH"(1)[OF None])
    have "safe TAGS (c # strip_br cs)"
    proof (rule safe_Cons[OF inert_TAGS s r])
      fix t assume "\<forall>x \<in> set t. tagchar TAGS x" and "prefix t cs"
      then show "prefix t (strip_br cs)"
        using nt(1) by (intro prefix_strip_br) auto
    qed
    with None show ?thesis by simp
  next
    case (Some br)
    obtain b r where br: "br = (b, r)" by (cases br)
    from Some br have "skip_br (c # cs) = ''<li>'' @ b @ ''</li>'' @ r"
      using li_at_decomp[of "skip_br (c # cs)" b r] by simp
    moreover from s have "safe TAGS (skip_br (c # cs))" by (rule safe_skip_br)
    ultimately have "safe TAGS (''<li>'' @ b @ ''</li>'' @ r)" by simp
    then have 1: "safe TAGS (b @ ''</li>'' @ r)" by (rule safe_suffix)
    then have "safe TAGS (b @ CHR ''<'' # ''/li>'' @ r)" by simp
    then have sb: "safe TAGS b" using nt(1) by (rule safe_cut[OF inert_TAGS])
    from 1 have "safe TAGS ((b @ ''</li>'') @ r)" by simp
    then have "safe TAGS r" by (rule safe_suffix)
    then have "safe TAGS (skip_br r)" by (rule safe_skip_br)
    then have "safe TAGS (strip_br (skip_br r))"
      using "2.IH"(2) Some br by simp
    with sb have "safe TAGS (''<li>'' @ b @ ''</li>'' @ strip_br (skip_br r))"
      by (intro safe_append safe_li)
    with Some br show ?thesis by simp
  qed
qed

lemma safe_split_li: "safe TAGS (acc @ s) \<Longrightarrow> \<forall>p \<in> set (split_li acc s). safe TAGS p"
proof (induction acc s rule: split_li.induct)
  case (1 acc)
  then show ?case by simp
next
  case (2 acc c cs)
  note s = \<open>safe TAGS (acc @ c # cs)\<close>
  from s have scs: "safe TAGS (c # cs)" by (rule safe_suffix)
  have sa: "safe TAGS acc" if "c = CHR ''<''"
    using s that nt(1) by (metis safe_cut inert_TAGS)
  show ?case
  proof (cases "prefix ''<li>'' (c # cs)")
    case True
    then have c: "c = CHR ''<''" by simp
    from scs have "safe TAGS (take 4 (c # cs) @ drop 4 (c # cs))" by simp
    then have "safe TAGS ([] @ drop 4 (c # cs))" by (metis safe_suffix append_Nil)
    then have "\<forall>p \<in> set (split_li [] (drop 4 (c # cs))). safe TAGS p" by (rule "2.IH"(1)[OF True])
    moreover have "split_li acc (c # cs) = acc # ''<li>'' # split_li [] (drop 4 (c # cs))"
      using True by (subst split_li.simps) simp
    ultimately show ?thesis using sa[OF c] safe_li(1) by simp
  next
    case False
    show ?thesis
    proof (cases "prefix ''</li>'' (c # cs)")
      case True
      then have c: "c = CHR ''<''" by simp
      from scs have "safe TAGS (take 5 (c # cs) @ drop 5 (c # cs))" by simp
      then have "safe TAGS ([] @ drop 5 (c # cs))" by (metis safe_suffix append_Nil)
      then have "\<forall>p \<in> set (split_li [] (drop 5 (c # cs))). safe TAGS p"
        by (rule "2.IH"(2)[OF False True])
      moreover have "split_li acc (c # cs) = acc # ''</li>'' # split_li [] (drop 5 (c # cs))"
        using False True by (subst split_li.simps) simp
      ultimately show ?thesis using sa[OF c] safe_li(2) by simp
    next
      case F2: False
      from s have "safe TAGS ((acc @ [c]) @ cs)" by simp
      then have "\<forall>p \<in> set (split_li (acc @ [c]) cs). safe TAGS p" by (rule "2.IH"(3)[OF False F2])
      moreover have "split_li acc (c # cs) = split_li (acc @ [c]) cs"
        using False F2 by (subst split_li.simps) auto
      ultimately show ?thesis by simp
    qed
  qed
qed

lemma safe_group_li: "\<forall>p \<in> set ps. safe TAGS p \<Longrightarrow> safe TAGS (group_li b ps)"
proof (induction ps arbitrary: b)
  case Nil
  show ?case using safe_li(4) by (cases b) simp_all
next
  case (Cons l ls)
  then have IH: "safe TAGS (group_li b' ls)" for b' by simp
  from Cons.prems have sl: "safe TAGS l" by simp
  consider (li) "l = ''<li>''" | (cli) "l \<noteq> ''<li>''" "l = ''</li>''"
    | (other) "l \<noteq> ''<li>''" "l \<noteq> ''</li>''" by blast
  then show ?case
  proof cases
    case li
    then have eq: "group_li b (l # ls) = (if \<not> b then ''<ul>'' else []) @ ''<li>'' @ group_li True ls"
      by simp
    have "safe TAGS (if \<not> b then ''<ul>'' else [])" using safe_li(3) by (cases b) simp_all
    then show ?thesis unfolding eq by (intro safe_append IH safe_li)
  next
    case cli
    then have eq: "group_li b (l # ls) = ''</li>'' @
        (if \<not> nextLi ls \<and> b then ''</ul>'' @ group_li False ls else group_li b ls)"
      by simp
    have "safe TAGS (if \<not> nextLi ls \<and> b then ''</ul>'' @ group_li False ls else group_li b ls)"
      using safe_append[OF safe_li(4) IH[of False]] IH[of b] by (cases "\<not> nextLi ls \<and> b") simp_all
    then show ?thesis unfolding eq by (intro safe_append safe_li)
  next
    case other
    then have eq: "group_li b (l # ls) = l @ group_li b ls" by simp
    show ?thesis unfolding eq using sl IH by (rule safe_append)
  qed
qed

lemma safe_h: "safe TAGS ''<h1>''" "safe TAGS ''</h1>''" "safe TAGS ''<h2>''" "safe TAGS ''</h2>''" "safe TAGS ''<h3>''"
  "safe TAGS ''</h3>''" "safe TAGS ''<strong>''" "safe TAGS ''</strong>''" "safe TAGS ''<em>''" "safe TAGS ''</em>''"
  "safe TAGS ''<strong><em>''" "safe TAGS ''</em></strong>''"
  by code_simp+

lemma safe_headers: "safe TAGS s \<Longrightarrow> safe TAGS (headers s)"
  unfolding headers_def by (intro safe_replace_line safe_h inert_TAGS)

lemma safe_emphasis: "safe TAGS s \<Longrightarrow> safe TAGS (emphasis s)"
  unfolding emphasis_def by (intro safe_replace_delim safe_h inert_TAGS) (simp_all add: nt)

lemma safe_line_breaks: "safe TAGS s \<Longrightarrow> safe TAGS (line_breaks s)"
  unfolding line_breaks_def by (intro safe_replace_lit safe_li) (simp_all add: nt)

lemma safe_markup: "safe TAGS (markup s)"
proof -
  have "safe TAGS (escape_html s)" by (rule safe_no_lt) (rule escape_html_no_lt)
  then show ?thesis
    unfolding markup_def
    by (intro safe_line_breaks safe_replace_line safe_li safe_replace_code safe_replace_links
        safe_emphasis safe_headers inert_TAGS)
qed

lemma safe_render: "safe TAGS (render s)"
proof -
  have "safe TAGS ([] @ strip_br (markup s))" using safe_markup by (simp add: safe_strip_br)
  then have "\<forall>p \<in> set (split_li [] (strip_br (markup s))). safe TAGS p" by (rule safe_split_li)
  then have "safe TAGS (group_li False (split_li [] (strip_br (markup s))))" by (rule safe_group_li)
  then show ?thesis unfolding render_def by (intro safe_append safe_li)
qed

lemma safe_nth: "safe T s \<Longrightarrow> i < length s \<Longrightarrow> s ! i = CHR ''<'' \<Longrightarrow> \<exists>t \<in> set T. prefix t (drop i s)"
proof (induction s arbitrary: i)
  case Nil
  then show ?case by simp
next
  case (Cons c s)
  then show ?case by (cases i) auto
qed

text \<open>
  Together, \<open>safe_render\<close> and \<open>safe_nth\<close> say that every \<open><\<close> of a rendering starts one of
  the tag texts of the replacement strings. They say nothing of what stands between the
  \<open><a href="\<close> of an anchor and the \<open>>\<close> that ends its tag.
\<close>

text \<open>
  C3. The first three substitutions escape \<open>&\<close>, \<open><\<close> and \<open>>\<close>, \<open>&\<close> first, and
  \<open>renderMarkdown("<b>x</b>")\<close> is the paragraph of the escaped text. The double quote is not
  escaped, and the substitution of the links copies the URL between the quotes of \<open>href\<close>.
  The rendering of \<open>[x](u" onmouseover="location=name)\<close> is an anchor whose tag holds an
  \<open>onmouseover\<close> attribute after the \<open>href\<close> that the URL's double quote has ended, and
  \<open>addMessage\<close> assigns it to the \<open>innerHTML\<close> of an assistant message.
\<close>

theorem renderMarkdown_attribute_injection:
  \<open>renderMarkdown (Some (JStr ''<b>x</b>'')) = Inr ''<p>&lt;b&gt;x&lt;/b&gt;</p>'' \<and>
   renderMarkdown (Some (JStr ''a & b'')) = Inr ''<p>a &amp; b</p>'' \<and>
   renderMarkdown (Some (JStr ''&lt;'')) = Inr ''<p>&amp;lt;</p>'' \<and>
   escape_html ''u" onmouseover="location=name'' = ''u" onmouseover="location=name'' \<and>
   renderMarkdown (Some (JStr ''[x](u" onmouseover="location=name)'')) =
     Inr ''<p><a href="u" onmouseover="location=name" target="_blank" rel="noopener">x</a></p>'' \<and>
   addMessage (Some (JStr ''[x](u" onmouseover="location=name)'')) Assistant w =
     Inr (w\<lparr>messages := messages w @ [Message Assistant (InnerHTML
       ''<p><a href="u" onmouseover="location=name" target="_blank" rel="noopener">x</a></p>'')]\<rparr>)\<close>
proof -
  have r: \<open>renderMarkdown (Some (JStr ''[x](u" onmouseover="location=name)'')) =
     Inr ''<p><a href="u" onmouseover="location=name" target="_blank" rel="noopener">x</a></p>''\<close>
    by code_simp
  have \<open>renderMarkdown (Some (JStr ''<b>x</b>'')) = Inr ''<p>&lt;b&gt;x&lt;/b&gt;</p>''\<close>
    by code_simp
  moreover have \<open>renderMarkdown (Some (JStr ''a & b'')) = Inr ''<p>a &amp; b</p>''\<close>
    by code_simp
  moreover have \<open>renderMarkdown (Some (JStr ''&lt;'')) = Inr ''<p>&amp;lt;</p>''\<close>
    by code_simp
  moreover have \<open>escape_html ''u" onmouseover="location=name'' = ''u" onmouseover="location=name''\<close>
    by code_simp
  ultimately show ?thesis using r by (simp add: addMessage_def)
qed

subsection \<open>Anchors in the output\<close>

lemma attrs_follow_marks: "attrs_follow q s = okm q (marks s)"
  by (induction s arbitrary: q) simp_all

lemma prefix_cut_iff: "c \<notin> set t \<Longrightarrow> prefix t (x @ c # y) \<longleftrightarrow> prefix t x"
  using prefix_cut[of t x c y] prefix_prefix[of t x "c # y"] by blast

lemma prefix_Cons_cut:
  "P \<noteq> [] \<Longrightarrow> c \<notin> set (tl P) \<Longrightarrow> prefix P (a # x @ c # y) \<longleftrightarrow> prefix P (a # x)"
  by (cases P) (simp_all add: prefix_cut_iff)

lemma A_nonempty: "A_OPEN \<noteq> []" "A_ATTRS \<noteq> []"
  by (simp_all add: A_OPEN_def A_ATTRS_def)

lemma marks_cut: "\<not> mid c \<Longrightarrow> marks (x @ c # y) = marks x @ marks (c # y)"
proof (induction x)
  case Nil
  then show ?case by simp
next
  case (Cons a x)
  from Cons.prems have "prefix A_OPEN (a # x @ c # y) \<longleftrightarrow> prefix A_OPEN (a # x)"
    and "prefix A_ATTRS (a # x @ c # y) \<longleftrightarrow> prefix A_ATTRS (a # x)"
    by (simp_all add: prefix_Cons_cut A_nonempty mid_def)
  with Cons show ?case by simp
qed

lemma marks_skip: "c \<noteq> CHR ''<'' \<Longrightarrow> c \<noteq> CHR 0x22 \<Longrightarrow> marks (c # cs) = marks cs"
  by (simp add: A_OPEN_def A_ATTRS_def)

lemma not_mid: "\<not> mid (CHR ''<'')" "\<not> mid (CHR 0x60)" "\<not> mid (CHR 0x0A)" "\<not> mid (CHR 0x0D)"
  "\<not> mid (CHR ''-'')"
  by code_simp+

lemma marks_lit:
  "marks (''<code>'' @ y) = marks y" "marks (''</code>'' @ y) = marks y"
  "marks (''<li>'' @ y) = marks y" "marks (''</li>'' @ y) = marks y"
  "marks (''<ul>'' @ y) = marks y" "marks (''</ul>'' @ y) = marks y"
  "marks (''<p>'' @ y) = marks y" "marks (''</p>'' @ y) = marks y"
  "marks (''<br>'' @ y) = marks y" "marks (''</p><p>'' @ y) = marks y"
  by (simp_all add: A_OPEN_def A_ATTRS_def)


lemmas marks_lit_Cons = marks_lit[unfolded append_Cons append_Nil]

lemma marks_skip_all:
  "\<forall>c \<in> set x. c \<noteq> CHR ''<'' \<and> c \<noteq> CHR 0x22 \<Longrightarrow> marks (x @ y) = marks y"
  by (induction x) (simp_all add: marks_skip del: marks.simps)

lemma marks_Cons_cong:
  assumes "prefix (tl A_OPEN) cs' \<longleftrightarrow> prefix (tl A_OPEN) cs"
    and "prefix (tl A_ATTRS) cs' \<longleftrightarrow> prefix (tl A_ATTRS) cs"
    and "marks cs' = marks cs"
  shows "marks (c # cs') = marks (c # cs)"
proof -
  have "prefix A_OPEN (c # cs') \<longleftrightarrow> prefix A_OPEN (c # cs)"
    using assms(1) by (simp add: A_OPEN_def)
  moreover have "prefix A_ATTRS (c # cs') \<longleftrightarrow> prefix A_ATTRS (c # cs)"
    using assms(2) by (simp add: A_ATTRS_def)
  ultimately show ?thesis using assms(3) by simp
qed

lemma tl_A_chars:
  "CHR ''<'' \<notin> set (tl A_OPEN)" "CHR ''<'' \<notin> set (tl A_ATTRS)"
  "CHR 0x60 \<notin> set (tl A_OPEN)" "CHR 0x60 \<notin> set (tl A_ATTRS)"
  "CHR 0x0A \<notin> set (tl A_OPEN)" "CHR 0x0A \<notin> set (tl A_ATTRS)"
  "CHR 0x0D \<notin> set (tl A_OPEN)" "CHR 0x0D \<notin> set (tl A_ATTRS)"
  by code_simp+

subsubsection \<open>Inline code keeps the marks\<close>

lemma replace_code_hd: "replace_code (CHR 0x60 # cs) \<noteq> [] \<and>
  (hd (replace_code (CHR 0x60 # cs)) = CHR ''<'' \<or> hd (replace_code (CHR 0x60 # cs)) = CHR 0x60)"
  by (cases "code_at (CHR 0x60 # cs)") auto

lemma prefix_replace_code_iff:
  "CHR 0x60 \<notin> set t \<Longrightarrow> CHR ''<'' \<notin> set t \<Longrightarrow> prefix t (replace_code cs) \<longleftrightarrow> prefix t cs"
proof (induction t arbitrary: cs)
  case Nil
  then show ?case by simp
next
  case (Cons x t)
  show ?case
  proof (cases cs)
    case Nil
    then show ?thesis by simp
  next
    case (Cons y cs')
    show ?thesis
    proof (cases "y = CHR 0x60")
      case True
      with replace_code_hd[of cs'] obtain z zs where
        z: "replace_code (y # cs') = z # zs" "z = CHR ''<'' \<or> z = CHR 0x60"
        by (cases "replace_code (y # cs')") auto
      with Cons.prems True Cons show ?thesis by auto
    next
      case False
      then have "code_at (y # cs') = None" by (rule code_at_head)
      with Cons.IH[of cs'] Cons.prems Cons show ?thesis by simp
    qed
  qed
qed

lemma marks_replace_code: "marks (replace_code s) = marks s"
proof (induction s rule: replace_code.induct)
  case 1
  then show ?case by simp
next
  case (2 c cs)
  show ?case
  proof (cases "code_at (c # cs)")
    case None
    then have IH: "marks (replace_code cs) = marks cs" by (rule "2.IH"(1))
    have "marks (c # replace_code cs) = marks (c # cs)"
      by (rule marks_Cons_cong) (simp_all add: prefix_replace_code_iff tl_A_chars IH)
    with None show ?thesis by simp
  next
    case (Some br)
    obtain b r where br: "br = (b, r)" by (cases br)
    from Some br have d: "c # cs = CHR 0x60 # b @ CHR 0x60 # r"
      using code_at_decomp[of "c # cs" b r] by simp
    from Some br have IH: "marks (replace_code r) = marks r" using "2.IH"(2) by simp
    have "marks (''<code>'' @ b @ ''</code>'' @ replace_code r) =
        marks (b @ CHR ''<'' # ''/code>'' @ replace_code r)"
      by (simp add: marks_lit_Cons del: marks.simps)
    also have "\<dots> = marks b @ marks (''</code>'' @ replace_code r)"
      using marks_cut[OF not_mid(1)] by simp
    also have "\<dots> = marks b @ marks r" by (simp add: marks_lit_Cons IH del: marks.simps)
    finally have L: "marks (replace_code (c # cs)) = marks b @ marks r"
      using Some br by (simp del: marks.simps)
    have "marks (CHR 0x60 # b @ CHR 0x60 # r) = marks (b @ CHR 0x60 # r)"
      by (rule marks_skip) simp_all
    also have "\<dots> = marks b @ marks (CHR 0x60 # r)" by (rule marks_cut[OF not_mid(2)])
    also have "marks (CHR 0x60 # r) = marks r" by (rule marks_skip) simp_all
    finally show ?thesis using L d by simp
  qed
qed

subsubsection \<open>Line breaks keep the marks\<close>

lemma prefix_replace_lit_iff:
  assumes "pat \<noteq> []" and "rep \<noteq> []" and "hd rep = CHR ''<''"
  shows "hd pat \<notin> set t \<Longrightarrow> CHR ''<'' \<notin> set t \<Longrightarrow>
    prefix t (replace_lit pat rep cs) \<longleftrightarrow> prefix t cs"
proof (induction t arbitrary: cs)
  case Nil
  then show ?case by simp
next
  case (Cons x t)
  show ?case
  proof (cases cs)
    case Nil
    then show ?thesis by simp
  next
    case (Cons y cs')
    show ?thesis
    proof (cases "prefix pat (y # cs')")
      case True
      with assms(1) have "y = hd pat" by (cases pat) auto
      moreover from True assms obtain zs where
        "replace_lit pat rep (y # cs') = CHR ''<'' # zs"
        by (cases rep) auto
      ultimately show ?thesis using Cons.prems Cons by auto
    next
      case False
      with Cons.IH[of cs'] Cons.prems Cons show ?thesis by simp
    qed
  qed
qed

lemma marks_replace_lit:
  "pat \<noteq> [] \<Longrightarrow> \<forall>c \<in> set pat. c \<noteq> CHR ''<'' \<and> c \<noteq> CHR 0x22 \<Longrightarrow>
   hd pat \<notin> set (tl A_OPEN) \<Longrightarrow> hd pat \<notin> set (tl A_ATTRS) \<Longrightarrow>
   rep \<noteq> [] \<Longrightarrow> hd rep = CHR ''<'' \<Longrightarrow> \<forall>y. marks (rep @ y) = marks y \<Longrightarrow>
   marks (replace_lit pat rep s) = marks s"
proof (induction pat rep s rule: replace_lit.induct)
  case (1 pat rep)
  then show ?case by simp
next
  case (2 pat rep c cs)
  show ?case
  proof (cases "prefix pat (c # cs)")
    case True
    let ?rest = "drop (length pat) (c # cs)"
    from True have d: "c # cs = pat @ ?rest" using prefix_drop[of pat "c # cs"] by simp
    from True "2.prems"(1) have "marks (replace_lit pat rep ?rest) = marks ?rest"
      by (intro "2.IH"(1) "2.prems") simp
    moreover have "replace_lit pat rep (c # cs) = rep @ replace_lit pat rep ?rest"
      using True "2.prems"(1) by simp
    moreover have "marks (pat @ ?rest) = marks ?rest"
      using "2.prems"(2) by (rule marks_skip_all)
    ultimately show ?thesis using "2.prems"(7) d by (metis)
  next
    case False
    then have IH: "marks (replace_lit pat rep cs) = marks cs"
      by (intro "2.IH"(2) "2.prems") simp
    have "marks (c # replace_lit pat rep cs) = marks (c # cs)"
      using "2.prems" tl_A_chars
      by (intro marks_Cons_cong prefix_replace_lit_iff IH) simp_all
    with False show ?thesis by simp
  qed
qed

lemma marks_line_breaks: "marks (line_breaks s) = marks s"
proof -
  have 1: "marks (replace_lit [CHR 0x0A, CHR 0x0A] ''</p><p>'' s) = marks s"
    using tl_A_chars by (intro marks_replace_lit) (simp_all add: marks_lit_Cons del: marks.simps)
  have "marks (replace_lit [CHR 0x0A] ''<br>'' (replace_lit [CHR 0x0A, CHR 0x0A] ''</p><p>'' s)) =
      marks (replace_lit [CHR 0x0A, CHR 0x0A] ''</p><p>'' s)"
    using tl_A_chars by (intro marks_replace_lit) (simp_all add: marks_lit_Cons del: marks.simps)
  with 1 show ?thesis by (simp add: line_breaks_def)
qed

subsubsection \<open>List items keep the marks\<close>

lemma marks_map_lines:
  assumes "\<And>l y. y = [] \<or> LineTerminator (hd y) \<Longrightarrow> marks (f l @ y) = marks (l @ y)"
  shows "marks (map_lines f l s) = marks (l @ s)"
proof (induction s arbitrary: l)
  case Nil
  show ?case using assms[of "[]" l] by simp
next
  case (Cons c s)
  show ?case
  proof (cases "LineTerminator c")
    case True
    then have nm: "\<not> mid c" and sk: "c \<noteq> CHR ''<''" "c \<noteq> CHR 0x22"
      using not_mid by (auto simp: LineTerminator_def)
    let ?M = "map_lines f [] s"
    have "marks (f l @ c # ?M) = marks (l @ c # ?M)" using True by (intro assms) simp
    also have "\<dots> = marks l @ marks (c # ?M)" by (rule marks_cut[OF nm])
    also have "marks (c # ?M) = marks ?M" using sk by (rule marks_skip)
    also have "marks ?M = marks s" using Cons.IH[of "[]"] by simp
    finally have L: "marks (f l @ c # ?M) = marks l @ marks s" .
    have "marks (l @ c # s) = marks l @ marks (c # s)" by (rule marks_cut[OF nm])
    also have "marks (c # s) = marks s" using sk by (rule marks_skip)
    finally show ?thesis using L True by simp
  next
    case False
    with Cons.IH[of "l @ [c]"] show ?thesis by simp
  qed
qed

lemma marks_append_line:
  "y = [] \<or> LineTerminator (hd y) \<Longrightarrow> marks (x @ y) = marks x @ marks y"
proof (cases y)
  case Nil
  then show ?thesis by simp
next
  case (Cons c y')
  assume "y = [] \<or> LineTerminator (hd y)"
  with Cons have "\<not> mid c" using not_mid by (auto simp: LineTerminator_def)
  with Cons show ?thesis by (simp add: marks_cut del: marks.simps)
qed

lemma marks_li_lines: "marks (replace_line ''- '' ''<li>'' ''</li>'' s) = marks s"
proof -
  have "marks (wrap_line ''- '' ''<li>'' ''</li>'' l @ y) = marks (l @ y)"
    if y: "y = [] \<or> LineTerminator (hd y)" for l y
  proof (cases "prefix ''- '' l \<and> length ''- '' < length l")
    case False
    then have "wrap_line ''- '' ''<li>'' ''</li>'' l = l" by (auto simp: wrap_line_def)
    then show ?thesis by (simp del: marks.simps)
  next
    case True
    then obtain body where l: "l = ''- '' @ body" by (auto simp: prefix_def)
    have "marks (''<li>'' @ body @ ''</li>'' @ y) = marks (body @ CHR ''<'' # ''/li>'' @ y)"
      by (simp add: marks_lit_Cons del: marks.simps)
    also have "\<dots> = marks body @ marks (''</li>'' @ y)"
      using marks_cut[OF not_mid(1)] by simp
    also have "\<dots> = marks body @ marks y" by (simp add: marks_lit_Cons del: marks.simps)
    finally have L: "marks (''<li>'' @ body @ ''</li>'' @ y) = marks body @ marks y" .
    have "marks (''- '' @ body @ y) = marks (body @ y)" by (rule marks_skip_all) simp
    also have "\<dots> = marks body @ marks y" using y by (rule marks_append_line)
    finally show ?thesis using L l True by (simp add: wrap_line_def del: marks.simps)
  qed
  then show ?thesis unfolding replace_line_def using marks_map_lines[of _ "[]" s] by simp
qed


lemma strip_br_lt: "\<exists>zs. strip_br (CHR ''<'' # cs) = CHR ''<'' # zs"
  by (cases "li_at (skip_br (CHR ''<'' # cs))") auto

lemma prefix_strip_br_iff:
  "CHR ''<'' \<notin> set t \<Longrightarrow> prefix t (strip_br cs) \<longleftrightarrow> prefix t cs"
proof (induction t arbitrary: cs)
  case Nil
  then show ?case by simp
next
  case (Cons x t)
  show ?case
  proof (cases cs)
    case Nil
    then show ?thesis by simp
  next
    case (Cons y cs')
    show ?thesis
    proof (cases "y = CHR ''<''")
      case True
      with strip_br_lt[of cs'] obtain zs where "strip_br (y # cs') = CHR ''<'' # zs" by blast
      with Cons.prems True Cons show ?thesis by auto
    next
      case False
      then have "strip_br (y # cs') = y # strip_br cs'" by (rule strip_br_head)
      with Cons.IH[of cs'] Cons.prems Cons show ?thesis by simp
    qed
  qed
qed

lemma marks_skip_br: "marks (skip_br s) = marks s"
proof (cases "prefix ''<br>'' s")
  case True
  then obtain r where "s = ''<br>'' @ r" by (auto simp: prefix_def)
  then show ?thesis by (simp add: skip_br_def marks_lit_Cons del: marks.simps)
next
  case False
  then show ?thesis by (simp add: skip_br_def del: marks.simps)
qed

lemma marks_li_item: "marks (''<li>'' @ b @ ''</li>'' @ r) = marks b @ marks r"
proof -
  have "marks (''<li>'' @ b @ ''</li>'' @ r) = marks (b @ CHR ''<'' # ''/li>'' @ r)"
    by (simp add: marks_lit_Cons del: marks.simps)
  also have "\<dots> = marks b @ marks (''</li>'' @ r)"
    using marks_cut[OF not_mid(1)] by simp
  also have "\<dots> = marks b @ marks r" by (simp add: marks_lit_Cons del: marks.simps)
  finally show ?thesis .
qed

lemma marks_strip_br: "marks (strip_br s) = marks s"
proof (induction s rule: strip_br.induct)
  case 1
  then show ?case by simp
next
  case (2 c cs)
  show ?case
  proof (cases "li_at (skip_br (c # cs))")
    case None
    then have IH: "marks (strip_br cs) = marks cs" by (rule "2.IH"(1))
    have "marks (c # strip_br cs) = marks (c # cs)"
      by (rule marks_Cons_cong) (simp_all add: prefix_strip_br_iff tl_A_chars IH)
    with None show ?thesis by simp
  next
    case (Some br)
    obtain b r where br: "br = (b, r)" by (cases br)
    from Some br have d: "skip_br (c # cs) = ''<li>'' @ b @ ''</li>'' @ r"
      using li_at_decomp[of "skip_br (c # cs)" b r] by simp
    from Some br have IH: "marks (strip_br (skip_br r)) = marks (skip_br r)"
      using "2.IH"(2) by simp
    have "marks (strip_br (c # cs)) = marks (''<li>'' @ b @ ''</li>'' @ strip_br (skip_br r))"
      using Some br by (simp del: marks.simps)
    also have "\<dots> = marks b @ marks (strip_br (skip_br r))" by (rule marks_li_item)
    also have "\<dots> = marks b @ marks r" by (simp add: IH marks_skip_br)
    also have "\<dots> = marks (skip_br (c # cs))" unfolding d by (rule marks_li_item[symmetric])
    finally show ?thesis by (simp add: marks_skip_br del: marks.simps)
  qed
qed

lemma split_li_nonempty: "split_li acc s \<noteq> []"
  by (induction acc s rule: split_li.induct) simp_all

lemma chain_sep: "sep_chain ps \<Longrightarrow> issep p \<Longrightarrow> sep_chain (p # ps)"
  by (cases ps) simp_all

lemma chain_split_li: "sep_chain (split_li acc s)"
proof (induction acc s rule: split_li.induct)
  case (1 acc)
  then show ?case by simp
next
  case (2 acc c cs)
  show ?case
  proof (cases "prefix ''<li>'' (c # cs)")
    case True
    then have e: "split_li acc (c # cs) = acc # ''<li>'' # split_li [] (drop 4 (c # cs))"
      by (subst split_li.simps) simp
    have "sep_chain (''<li>'' # split_li [] (drop 4 (c # cs)))"
      using "2.IH"(1)[OF True] by (intro chain_sep) (simp_all add: issep_def)
    then show ?thesis unfolding e by (simp add: issep_def)
  next
    case False
    show ?thesis
    proof (cases "prefix ''</li>'' (c # cs)")
      case True
      then have e: "split_li acc (c # cs) = acc # ''</li>'' # split_li [] (drop 5 (c # cs))"
        using False by (subst split_li.simps) simp
      have "sep_chain (''</li>'' # split_li [] (drop 5 (c # cs)))"
        using "2.IH"(2)[OF False True] by (intro chain_sep) (simp_all add: issep_def)
      then show ?thesis unfolding e by (simp add: issep_def)
    next
      case F2: False
      then have "split_li acc (c # cs) = split_li (acc @ [c]) cs"
        using False by (subst split_li.simps) auto
      with "2.IH"(3)[OF False F2] show ?thesis by simp
    qed
  qed
qed

lemma concat_split_li: "concat (split_li acc s) = acc @ s"
proof (induction acc s rule: split_li.induct)
  case (1 acc)
  then show ?case by simp
next
  case (2 acc c cs)
  show ?case
  proof (cases "prefix ''<li>'' (c # cs)")
    case True
    then have e: "split_li acc (c # cs) = acc # ''<li>'' # split_li [] (drop 4 (c # cs))"
      by (subst split_li.simps) simp
    from True obtain r where r: "c # cs = ''<li>'' @ r" by (auto simp: prefix_def)
    then have "drop 4 (c # cs) = r" by simp
    with "2.IH"(1)[OF True] e r show ?thesis by simp
  next
    case False
    show ?thesis
    proof (cases "prefix ''</li>'' (c # cs)")
      case True
      then have e: "split_li acc (c # cs) = acc # ''</li>'' # split_li [] (drop 5 (c # cs))"
        using False by (subst split_li.simps) simp
      from True obtain r where r: "c # cs = ''</li>'' @ r" by (auto simp: prefix_def)
      then have "drop 5 (c # cs) = r" by simp
      with "2.IH"(2)[OF False True] e r show ?thesis by simp
    next
      case F2: False
      then have "split_li acc (c # cs) = split_li (acc @ [c]) cs"
        using False by (subst split_li.simps) auto
      with "2.IH"(3)[OF False F2] show ?thesis by simp
    qed
  qed
qed

lemma group_li_sep_hd: "issep p \<Longrightarrow> \<exists>zs. group_li q (p # ps) = CHR ''<'' # zs"
  by (auto simp: issep_def)

lemma marks_append_lt: "y = [] \<or> hd y = CHR ''<'' \<Longrightarrow> marks (x @ y) = marks x @ marks y"
  by (cases y) (simp_all add: marks_cut not_mid del: marks.simps(2))

lemma marks_group_li: "sep_chain ps \<Longrightarrow> marks (group_li q ps) = marks (concat ps)"
proof (induction ps arbitrary: q)
  case Nil
  show ?case by (cases q) (simp_all add: A_OPEN_def A_ATTRS_def)
next
  case (Cons p ps)
  from Cons.prems have c: "sep_chain ps" by (cases ps) simp_all
  note IH = Cons.IH[OF c]
  consider (li) "p = ''<li>''" | (cli) "p \<noteq> ''<li>''" "p = ''</li>''"
    | (other) "p \<noteq> ''<li>''" "p \<noteq> ''</li>''" by blast
  then show ?case
  proof cases
    case li
    then have eq: "group_li q (p # ps) = (if \<not> q then ''<ul>'' else []) @ ''<li>'' @ group_li True ps"
      by simp
    have "marks (group_li q (p # ps)) = marks (group_li True ps)"
      unfolding eq by (cases q) (simp_all add: marks_lit_Cons del: marks.simps)
    with IH[of True] li show ?thesis by (simp add: marks_lit_Cons del: marks.simps)
  next
    case cli
    then have eq: "group_li q (p # ps) = ''</li>'' @
        (if \<not> nextLi ps \<and> q then ''</ul>'' @ group_li False ps else group_li q ps)"
      by simp
    have "marks (group_li q (p # ps)) = marks (concat ps)"
      unfolding eq using IH[of False] IH[of q]
      by (cases "\<not> nextLi ps \<and> q") (simp_all add: marks_lit_Cons del: marks.simps)
    with cli show ?thesis by (simp add: marks_lit_Cons del: marks.simps)
  next
    case other
    then have eq: "group_li q (p # ps) = p @ group_li q ps" by simp
    have "group_li q ps = [] \<or> hd (group_li q ps) = CHR ''<''"
    proof (cases ps)
      case Nil
      then show ?thesis by (cases q) simp_all
    next
      case (Cons p' ps')
      with Cons.prems other have "issep p'" by (simp add: issep_def)
      from group_li_sep_hd[OF this, of q ps'] Cons show ?thesis by auto
    qed
    then have "marks (p @ group_li q ps) = marks p @ marks (group_li q ps)"
      by (rule marks_append_lt)
    moreover have "concat ps = [] \<or> hd (concat ps) = CHR ''<''"
    proof (cases ps)
      case Nil
      then show ?thesis by simp
    next
      case (Cons p' ps')
      with Cons.prems other have "issep p'" by (simp add: issep_def)
      with Cons show ?thesis by (auto simp: issep_def)
    qed
    then have "marks (p @ concat ps) = marks p @ marks (concat ps)"
      by (rule marks_append_lt)
    ultimately show ?thesis unfolding eq using IH[of q] by simp
  qed
qed


subsubsection \<open>The link substitution\<close>

lemma safe_early: "safe EARLY_TAGS (emphasis (headers (escape_html s)))"
proof -
  have lits: "safe EARLY_TAGS ''<h1>''" "safe EARLY_TAGS ''</h1>''" "safe EARLY_TAGS ''<h2>''"
    "safe EARLY_TAGS ''</h2>''" "safe EARLY_TAGS ''<h3>''" "safe EARLY_TAGS ''</h3>''"
    "safe EARLY_TAGS ''<strong>''" "safe EARLY_TAGS ''</strong>''" "safe EARLY_TAGS ''<em>''"
    "safe EARLY_TAGS ''</em>''" "safe EARLY_TAGS ''<strong><em>''"
    "safe EARLY_TAGS ''</em></strong>''"
    by code_simp+
  have "safe EARLY_TAGS (escape_html s)" by (rule safe_no_lt) (rule escape_html_no_lt)
  then have "safe EARLY_TAGS (headers (escape_html s))"
    unfolding headers_def by (intro safe_replace_line lits inert_EARLY_TAGS)
  then show ?thesis
    unfolding emphasis_def
    by (intro safe_replace_delim lits inert_EARLY_TAGS)
      (simp_all add: not_tagchar[OF inert_EARLY_TAGS])
qed

lemma EARLY_second: "list_all (\<lambda>t. tl t \<noteq> [] \<and> hd (tl t) \<noteq> CHR ''a'') EARLY_TAGS"
  by code_simp

text \<open>After a \<open><\<close> of an early tag no anchor opens, whatever follows the tag.\<close>

lemma early_no_open:
  assumes "safe EARLY_TAGS (c # cs)"
    and "\<And>t. (\<forall>x \<in> set t. tagchar EARLY_TAGS x) \<Longrightarrow> prefix t cs \<Longrightarrow> prefix t z"
  shows "\<not> prefix A_OPEN (c # z)"
proof (cases "c = CHR ''<''")
  case False
  then show ?thesis by (simp add: A_OPEN_def)
next
  case True
  with assms(1) obtain t where t: "t \<in> set EARLY_TAGS" "prefix t (c # cs)" by auto
  from TAGS_shape[OF inert_EARLY_TAGS t(1)] obtain t' where
    t': "t = CHR ''<'' # t'" "\<forall>c \<in> set t'. tagchar EARLY_TAGS c" by blast
  from t(1) EARLY_second t'(1) have n: "t' \<noteq> []" "hd t' \<noteq> CHR ''a''"
    by (auto simp: list_all_iff)
  from t(2) t'(1) True have "prefix t' cs" by simp
  with assms(2) t'(2) have "prefix t' z" by blast
  with n obtain z' where "z = hd t' # z'" by (cases t'; cases z) auto
  with n(2) show ?thesis by (simp add: A_OPEN_def)
qed

lemma early_no_open_append: "safe EARLY_TAGS (c # cs) \<Longrightarrow> \<not> prefix A_OPEN (c # cs @ y)"
proof -
  assume s: "safe EARLY_TAGS (c # cs)"
  show ?thesis
  proof (rule early_no_open[OF s])
    fix t assume "prefix t cs"
    then show "prefix t (cs @ y)" by (rule prefix_prefix)
  qed
qed

lemma attrs_follow_quiet:
  "safe EARLY_TAGS x \<Longrightarrow> attrs_follow False y \<Longrightarrow> attrs_follow False (x @ y)"
proof (induction x)
  case Nil
  then show ?case by simp
next
  case (Cons c x)
  from Cons.prems(1) have "safe EARLY_TAGS x" by simp
  then have "attrs_follow False (x @ y)" using Cons.prems(2) by (rule Cons.IH)
  moreover from Cons.prems(1) have "\<not> prefix A_OPEN (c # x @ y)" by (rule early_no_open_append)
  ultimately show ?case by simp
qed

lemma no_lt_tl_A: "CHR ''<'' \<notin> set (tl A_OPEN)" "CHR ''<'' \<notin> set (tl A_ATTRS)"
  by (rule tl_A_chars)+

lemma A_ATTRS_Cons: "\<exists>w. A_ATTRS = CHR 0x22 # w \<and> CHR ''<'' \<notin> set w"
  by (simp add: A_ATTRS_def)

lemma A_OPEN_Cons: "\<exists>w. A_OPEN = CHR ''<'' # w \<and> CHR ''<'' \<notin> set w"
  by (simp add: A_OPEN_def)

lemma attrs_follow_A_ATTRS: "attrs_follow False y \<Longrightarrow> attrs_follow q (A_ATTRS @ y)"
proof -
  assume y: "attrs_follow False y"
  from A_ATTRS_Cons obtain w where w: "A_ATTRS = CHR 0x22 # w" "CHR ''<'' \<notin> set w" by blast
  have "safe EARLY_TAGS w" using w(2) by (rule safe_no_lt)
  then have "attrs_follow False (w @ y)" using y by (rule attrs_follow_quiet)
  moreover have "\<not> prefix A_OPEN (CHR 0x22 # w @ y)" by (simp add: A_OPEN_def)
  moreover have "prefix A_ATTRS (CHR 0x22 # w @ y)" by (simp add: w(1))
  ultimately have "attrs_follow q (CHR 0x22 # w @ y)" by simp
  then show ?thesis by (simp add: w(1) del: attrs_follow.simps)
qed

lemma attrs_follow_closing:
  "safe EARLY_TAGS x \<Longrightarrow> attrs_follow False y \<Longrightarrow> attrs_follow True (x @ A_ATTRS @ y)"
proof (induction x)
  case Nil
  then show ?case by (simp add: attrs_follow_A_ATTRS del: attrs_follow.simps)
next
  case (Cons c x)
  then have IH: "attrs_follow True (x @ A_ATTRS @ y)" by simp
  from Cons.prems(1) have sx: "safe EARLY_TAGS x" by simp
  have "attrs_follow False (A_ATTRS @ y)" using Cons.prems(2) by (rule attrs_follow_A_ATTRS)
  with sx have F: "attrs_follow False (x @ A_ATTRS @ y)" by (rule attrs_follow_quiet)
  from Cons.prems(1) have "\<not> prefix A_OPEN (c # x @ A_ATTRS @ y)" by (rule early_no_open_append)
  with IH F show ?case by simp
qed

lemma attrs_follow_replace_links:
  "safe EARLY_TAGS s \<Longrightarrow> attrs_follow False (replace_links s)"
proof (induction s rule: replace_links.induct)
  case 1
  then show ?case by simp
next
  case (2 c cs)
  note s = \<open>safe EARLY_TAGS (c # cs)\<close>
  show ?case
  proof (cases "link_at (c # cs)")
    case None
    from s have "safe EARLY_TAGS cs" by simp
    then have IH: "attrs_follow False (replace_links cs)" by (rule "2.IH"(1)[OF None])
    have "\<not> prefix A_OPEN (c # replace_links cs)"
    proof (rule early_no_open[OF s])
      fix t assume "\<forall>x \<in> set t. tagchar EARLY_TAGS x" and "prefix t cs"
      then show "prefix t (replace_links cs)"
        using not_tagchar(3)[OF inert_EARLY_TAGS] by (intro prefix_replace_links) auto
    qed
    with IH None show ?thesis by simp
  next
    case (Some tur)
    obtain t u r where tur: "tur = (t, u, r)" by (cases tur)
    from Some tur have d: "c # cs = CHR ''['' # t @ CHR '']'' # CHR ''('' # u @ CHR '')'' # r"
      using link_at_decomp[of "c # cs" t u r] by simp
    note nt = not_tagchar[OF inert_EARLY_TAGS]
    from d s have 1: "safe EARLY_TAGS (t @ CHR '']'' # CHR ''('' # u @ CHR '')'' # r)" by simp
    then have st: "safe EARLY_TAGS t" using nt(4) by (rule safe_cut[OF inert_EARLY_TAGS])
    from 1 have "safe EARLY_TAGS ((t @ '']('') @ u @ CHR '')'' # r)" by simp
    then have 2: "safe EARLY_TAGS (u @ CHR '')'' # r)" by (rule safe_suffix)
    then have su: "safe EARLY_TAGS u" using nt(5) by (rule safe_cut[OF inert_EARLY_TAGS])
    from 2 have "safe EARLY_TAGS ((u @ '')'') @ r)" by simp
    then have "safe EARLY_TAGS r" by (rule safe_suffix)
    then have IH: "attrs_follow False (replace_links r)" using "2.IH"(2) Some tur by simp
    have "attrs_follow False (''</a>'' @ replace_links r)"
      using IH by (simp add: A_OPEN_def A_ATTRS_def)
    with st have Y: "attrs_follow False (t @ ''</a>'' @ replace_links r)"
      by (rule attrs_follow_quiet)
    from A_OPEN_Cons obtain w where w: "A_OPEN = CHR ''<'' # w" "CHR ''<'' \<notin> set w" by blast
    let ?Y = "t @ ''</a>'' @ replace_links r"
    have "safe EARLY_TAGS w" using w(2) by (rule safe_no_lt)
    with su have "safe EARLY_TAGS (w @ u)" by (intro safe_append)
    then have "attrs_follow True ((w @ u) @ A_ATTRS @ ?Y)"
      using Y by (rule attrs_follow_closing)
    moreover have "prefix A_OPEN (CHR ''<'' # (w @ u) @ A_ATTRS @ ?Y)"
      by (simp add: w(1))
    ultimately have "attrs_follow False (CHR ''<'' # (w @ u) @ A_ATTRS @ ?Y)"
      by (simp del: append_assoc)
    then have "attrs_follow False (A_OPEN @ u @ A_ATTRS @ ?Y)"
      by (simp add: w(1) del: attrs_follow.simps)
    with Some tur show ?thesis by (simp del: attrs_follow.simps)
  qed
qed

lemma marks_Cons_subset: "set (marks cs) \<subseteq> set (marks (c # cs))"
  by auto

lemma open_replace_links: "has_link s \<Longrightarrow> Open \<in> set (marks (replace_links s))"
proof (induction s rule: replace_links.induct)
  case 1
  then show ?case by simp
next
  case (2 c cs)
  show ?case
  proof (cases "link_at (c # cs)")
    case None
    with "2.prems" have "has_link cs" by simp
    then have "Open \<in> set (marks (replace_links cs))" by (rule "2.IH"(1)[OF None])
    then have "Open \<in> set (marks (c # replace_links cs))" using marks_Cons_subset by blast
    with None show ?thesis by (simp del: marks.simps)
  next
    case (Some tur)
    obtain t u r where tur: "tur = (t, u, r)" by (cases tur)
    have "prefix A_OPEN (A_OPEN @ x)" for x by simp
    then have "Open \<in> set (marks (A_OPEN @ x))" for x
      by (cases "A_OPEN @ x") (auto simp: A_OPEN_def)
    with Some tur show ?thesis by (simp del: marks.simps)
  qed
qed


subsubsection \<open>A link of the input is still a link when the links are substituted\<close>

lemma append_eq_cut:
  "d @ s = a @ x # r \<Longrightarrow> x \<notin> set d \<Longrightarrow> \<exists>a2. a = d @ a2 \<and> s = a2 @ x # r"
proof (induction d arbitrary: a)
  case Nil
  then show ?case by simp
next
  case (Cons y d)
  then show ?case by (cases a) auto
qed

lemma ed_split:
  "ed s s' \<Longrightarrow> s = a @ x # r \<Longrightarrow> bracket x \<Longrightarrow>
   \<exists>a' r'. s' = a' @ x # r' \<and> (a = [] \<longleftrightarrow> a' = []) \<and>
     (\<forall>b. bracket b \<longrightarrow> b \<notin> set a \<longrightarrow> b \<notin> set a') \<and> ed r r'"
proof (induction arbitrary: a rule: ed.induct)
  case (ed_end w)
  then show ?case by simp
next
  case (ed_keep s s' c)
  show ?case
  proof (cases a)
    case Nil
    with ed_keep.prems ed_keep.hyps have "c # s' = [] @ x # s'" "ed r s'" by auto
    with Nil show ?thesis by blast
  next
    case (Cons y a1)
    with ed_keep.prems have y: "y = c" and s: "s = a1 @ x # r" by auto
    from ed_keep.IH[OF s ed_keep.prems(2)] obtain a' r' where
      "s' = a' @ x # r'" "\<forall>b. bracket b \<longrightarrow> b \<notin> set a1 \<longrightarrow> b \<notin> set a'" "ed r r'" by blast
    then have "c # s' = (c # a') @ x # r'"
      "\<forall>b. bracket b \<longrightarrow> b \<notin> set (c # a1) \<longrightarrow> b \<notin> set (c # a')" "ed r r'" by auto
    with Cons y show ?thesis by blast
  qed
next
  case (ed_sub c d w s s')
  from ed_sub.prems(2) ed_sub.hyps(1) have xc: "x \<noteq> c" "x \<notin> set d"
    by (auto simp: plain_def list_all_iff)
  with ed_sub.prems(1) obtain a1 where a: "a = c # a1" and e: "d @ s = a1 @ x # r"
    by (cases a) auto
  from append_eq_cut[OF e xc(2)] obtain a2 where a2: "a1 = d @ a2" "s = a2 @ x # r" by blast
  from ed_sub.IH[OF a2(2) ed_sub.prems(2)] obtain a' r' where
    r: "s' = a' @ x # r'" "\<forall>b. bracket b \<longrightarrow> b \<notin> set a2 \<longrightarrow> b \<notin> set a'" "ed r r'" by blast
  from r(1) have "w @ s' = (w @ a') @ x # r'" by simp
  moreover from ed_sub.hyps(3) a have "a = [] \<longleftrightarrow> w @ a' = []" by simp
  moreover from r(2) ed_sub.hyps(2) a a2(1)
  have "\<forall>b. bracket b \<longrightarrow> b \<notin> set a \<longrightarrow> b \<notin> set (w @ a')"
    by (auto simp: plain_def list_all_iff)
  ultimately show ?case using r(3) by blast
qed

lemma link_at_props:
  "link_at s = Some (t, u, r) \<Longrightarrow> t \<noteq> [] \<and> CHR '']'' \<notin> set t \<and> u \<noteq> [] \<and> CHR '')'' \<notin> set u"
proof -
  assume a: "link_at s = Some (t, u, r)"
  then obtain s1 where s: "s = CHR ''['' # s1"
    by (cases s) (auto simp: link_at_def split: if_splits)
  let ?r2 = "drop 2 (dropWhile (\<lambda>x. x \<noteq> CHR '']'') s1)"
  from a s have "t = takeWhile (\<lambda>x. x \<noteq> CHR '']'') s1" "t \<noteq> []"
    "u = takeWhile (\<lambda>x. x \<noteq> CHR '')'') ?r2" "u \<noteq> []"
    by (auto simp: link_at_def Let_def split: if_splits)
  then show ?thesis by (auto dest: set_takeWhileD)
qed

lemma link_at_intro:
  assumes "t \<noteq> []" "CHR '']'' \<notin> set t" "u \<noteq> []" "CHR '')'' \<notin> set u"
  shows "link_at (CHR ''['' # t @ CHR '']'' # CHR ''('' # u @ CHR '')'' # r) = Some (t, u, r)"
proof -
  let ?k = "CHR ''('' # u @ CHR '')'' # r"
  have 1: "takeWhile (\<lambda>x. x \<noteq> CHR '']'') (t @ CHR '']'' # ?k) = t"
    using assms(2) by (subst takeWhile_tail) (auto simp: takeWhile_eq_all_conv)
  have 2: "dropWhile (\<lambda>x. x \<noteq> CHR '']'') (t @ CHR '']'' # ?k) = CHR '']'' # ?k"
    using assms(2) by (subst dropWhile_append2) auto
  have 3: "takeWhile (\<lambda>x. x \<noteq> CHR '')'') (u @ CHR '')'' # r) = u"
    using assms(4) by (subst takeWhile_tail) (auto simp: takeWhile_eq_all_conv)
  have 4: "dropWhile (\<lambda>x. x \<noteq> CHR '')'') (u @ CHR '')'' # r) = CHR '')'' # r"
    using assms(4) by (subst dropWhile_append2) auto
  show ?thesis using assms(1,3) by (simp add: link_at_def 1 2 3 4 Let_def)
qed

lemma has_link_append: "has_link s \<Longrightarrow> has_link (a @ s)"
  by (induction a) simp_all

lemma has_link_iff:
  "has_link s \<longleftrightarrow>
     (\<exists>a t u r. s = a @ CHR ''['' # t @ CHR '']'' # CHR ''('' # u @ CHR '')'' # r \<and>
        t \<noteq> [] \<and> CHR '']'' \<notin> set t \<and> u \<noteq> [] \<and> CHR '')'' \<notin> set u)"
proof
  show "has_link s \<Longrightarrow>
     \<exists>a t u r. s = a @ CHR ''['' # t @ CHR '']'' # CHR ''('' # u @ CHR '')'' # r \<and>
        t \<noteq> [] \<and> CHR '']'' \<notin> set t \<and> u \<noteq> [] \<and> CHR '')'' \<notin> set u"
  proof (induction s)
    case Nil
    then show ?case by simp
  next
    case (Cons c s)
    show ?case
    proof (cases "link_at (c # s)")
      case None
      with Cons obtain a t u r where
        "s = a @ CHR ''['' # t @ CHR '']'' # CHR ''('' # u @ CHR '')'' # r"
        "t \<noteq> []" "CHR '']'' \<notin> set t" "u \<noteq> []" "CHR '')'' \<notin> set u" by auto
      then have "c # s = (c # a) @ CHR ''['' # t @ CHR '']'' # CHR ''('' # u @ CHR '')'' # r \<and>
        t \<noteq> [] \<and> CHR '']'' \<notin> set t \<and> u \<noteq> [] \<and> CHR '')'' \<notin> set u" by simp
      then show ?thesis by blast
    next
      case (Some tur)
      obtain t u r where tur: "tur = (t, u, r)" by (cases tur)
      with Some have l: "link_at (c # s) = Some (t, u, r)" by simp
      from link_at_decomp[OF l] link_at_props[OF l]
      have "c # s = [] @ CHR ''['' # t @ CHR '']'' # CHR ''('' # u @ CHR '')'' # r \<and>
        t \<noteq> [] \<and> CHR '']'' \<notin> set t \<and> u \<noteq> [] \<and> CHR '')'' \<notin> set u" by simp
      then show ?thesis by blast
    qed
  qed
next
  assume "\<exists>a t u r. s = a @ CHR ''['' # t @ CHR '']'' # CHR ''('' # u @ CHR '')'' # r \<and>
        t \<noteq> [] \<and> CHR '']'' \<notin> set t \<and> u \<noteq> [] \<and> CHR '')'' \<notin> set u"
  then obtain a t u r where s: "s = a @ CHR ''['' # t @ CHR '']'' # CHR ''('' # u @ CHR '')'' # r"
    and p: "t \<noteq> []" "CHR '']'' \<notin> set t" "u \<noteq> []" "CHR '')'' \<notin> set u" by blast
  from link_at_intro[OF p] have "has_link (CHR ''['' # t @ CHR '']'' # CHR ''('' # u @ CHR '')'' # r)"
    by simp
  then show "has_link s" unfolding s by (rule has_link_append)
qed

lemma ed_has_link: "ed s s' \<Longrightarrow> has_link s \<Longrightarrow> has_link s'"
proof -
  assume e: "ed s s'" and h: "has_link s"
  from h obtain a t u r where s: "s = a @ CHR ''['' # t @ CHR '']'' # CHR ''('' # u @ CHR '')'' # r"
    and p: "t \<noteq> []" "CHR '']'' \<notin> set t" "u \<noteq> []" "CHR '')'' \<notin> set u"
    unfolding has_link_iff by blast
  have b: "bracket (CHR ''['')" "bracket (CHR '']'')" "bracket (CHR ''('')" "bracket (CHR '')'')"
    by (simp_all add: bracket_def)
  from ed_split[OF e s b(1)] obtain a' r1 where
    1: "s' = a' @ CHR ''['' # r1" "ed (t @ CHR '']'' # CHR ''('' # u @ CHR '')'' # r) r1" by blast
  from ed_split[OF 1(2) refl b(2)] obtain t' r2 where
    2: "r1 = t' @ CHR '']'' # r2" "t = [] \<longleftrightarrow> t' = []"
      "\<forall>b. bracket b \<longrightarrow> b \<notin> set t \<longrightarrow> b \<notin> set t'" "ed (CHR ''('' # u @ CHR '')'' # r) r2" by blast
  from ed_split[OF 2(4), of "[]" "CHR ''(''" "u @ CHR '')'' # r"] b(3) obtain e' r3 where
    3: "r2 = e' @ CHR ''('' # r3" "e' = []" "ed (u @ CHR '')'' # r) r3" by auto
  from ed_split[OF 3(3) refl b(4)] obtain u' r4 where
    4: "r3 = u' @ CHR '')'' # r4" "u = [] \<longleftrightarrow> u' = []"
      "\<forall>b. bracket b \<longrightarrow> b \<notin> set u \<longrightarrow> b \<notin> set u'" by blast
  from 1 2 3 4 have "s' = a' @ CHR ''['' # t' @ CHR '']'' # CHR ''('' # u' @ CHR '')'' # r4" by simp
  moreover from p 2 4 b have "t' \<noteq> []" "CHR '']'' \<notin> set t'" "u' \<noteq> []" "CHR '')'' \<notin> set u'"
    by auto
  ultimately show ?thesis unfolding has_link_iff by blast
qed


lemma ed_refl: "ed s s"
  by (induction s) (auto intro: ed.intros simp: plain_def)

lemma ed_append_keep: "ed s s' \<Longrightarrow> ed (x @ s) (x @ s')"
  by (induction x) (auto intro: ed_keep)

lemma ed_append_end: "plain w \<Longrightarrow> ed s (s @ w)"
  by (induction s) (auto intro: ed.intros)

lemma ed_sub_chunk:
  "k \<noteq> [] \<Longrightarrow> plain k \<Longrightarrow> plain w \<Longrightarrow> w \<noteq> [] \<Longrightarrow> ed s s' \<Longrightarrow> ed (k @ s) (w @ s')"
  using ed_sub[of "hd k" "tl k" w s s'] by (cases k) auto

lemma ed_replace_single:
  assumes "\<not> bracket p" and "plain rep" and "rep \<noteq> []"
  shows "ed s (replace_lit [p] rep s)"
proof (induction s)
  case Nil
  then show ?case by (simp add: ed_refl)
next
  case (Cons c s)
  show ?case
  proof (cases "c = p")
    case True
    have "ed ([p] @ s) (rep @ replace_lit [p] rep s)"
      using assms Cons.IH by (intro ed_sub_chunk) (simp_all add: plain_def)
    with True show ?thesis by simp
  next
    case False
    with Cons.IH show ?thesis by (auto intro: ed_keep)
  qed
qed

lemma has_link_escape: "has_link s \<Longrightarrow> has_link (escape_html s)"
proof -
  have e: "ed x (replace_lit [p] rep x)" if "\<not> bracket p" "plain rep" "rep \<noteq> []" for p rep x
    using that by (rule ed_replace_single)
  assume "has_link s"
  then have "has_link (replace_lit ''&'' ''&amp;'' s)"
    by (rule ed_has_link[rotated]) (rule e; simp add: bracket_def plain_def)
  then have "has_link (replace_lit ''<'' ''&lt;'' (replace_lit ''&'' ''&amp;'' s))"
    by (rule ed_has_link[rotated]) (rule e; simp add: bracket_def plain_def)
  then show ?thesis unfolding escape_html_def
    by (rule ed_has_link[rotated]) (rule e; simp add: bracket_def plain_def)
qed

lemma ed_map_lines:
  assumes "mark \<noteq> []" "plain mark" "op \<noteq> []" "plain op" "plain cl"
  shows "ed (l @ s) (map_lines (wrap_line mark op cl) l s)"
proof (induction s arbitrary: l)
  case Nil
  show ?case
  proof (cases "prefix mark l \<and> length mark < length l")
    case True
    then obtain body where l: "l = mark @ body" by (auto simp: prefix_def)
    have "ed (mark @ body) (op @ body @ cl)"
      using assms(1,2,4,3) ed_append_end[OF assms(5), of body] by (rule ed_sub_chunk)
    moreover have "wrap_line mark op cl l = op @ body @ cl"
      using True l by (auto simp: wrap_line_def)
    ultimately show ?thesis using l by simp
  next
    case False
    then have "wrap_line mark op cl l = l" by (auto simp: wrap_line_def)
    then show ?thesis by (simp add: ed_refl)
  qed
next
  case (Cons c s)
  let ?f = "wrap_line mark op cl"
  show ?case
  proof (cases "LineTerminator c")
    case True
    then have pc: "plain [c]" by (auto simp: LineTerminator_def plain_def bracket_def)
    have tail: "ed (c # s) (c # map_lines ?f [] s)"
      using Cons.IH[of "[]"] by (auto intro: ed_keep)
    show ?thesis
    proof (cases "prefix mark l \<and> length mark < length l")
      case W: True
      then obtain body where l: "l = mark @ body" by (auto simp: prefix_def)
      have "plain (cl @ [c])" using assms(5) pc by (simp add: plain_def)
      moreover have "ed s (map_lines ?f [] s)" using Cons.IH[of "[]"] by simp
      ultimately have "ed ([c] @ s) ((cl @ [c]) @ map_lines ?f [] s)"
        using pc by (intro ed_sub_chunk) simp_all
      then have "ed (body @ c # s) (body @ cl @ c # map_lines ?f [] s)"
        using ed_append_keep[of "[c] @ s" "(cl @ [c]) @ map_lines ?f [] s" body] by simp
      with assms(1,2,4,3)
      have "ed (mark @ body @ c # s) (op @ body @ cl @ c # map_lines ?f [] s)"
        by (rule ed_sub_chunk)
      moreover have "wrap_line mark op cl l = op @ body @ cl"
        using W l by (auto simp: wrap_line_def)
      ultimately show ?thesis using l True by simp
    next
      case False
      then have "wrap_line mark op cl l = l" by (auto simp: wrap_line_def)
      with tail True show ?thesis by (simp add: ed_append_keep)
    qed
  next
    case False
    with Cons.IH[of "l @ [c]"] show ?thesis by simp
  qed
qed

lemma has_link_headers: "has_link s \<Longrightarrow> has_link (headers s)"
proof -
  have e: "ed x (replace_line mark op cl x)"
    if "mark \<noteq> []" "plain mark" "op \<noteq> []" "plain op" "plain cl" for mark op cl x
    using ed_map_lines[OF that, of "[]" x] by (simp add: replace_line_def)
  assume "has_link s"
  then have "has_link (replace_line ''### '' ''<h3>'' ''</h3>'' s)"
    by (rule ed_has_link[rotated]) (rule e; simp add: bracket_def plain_def)
  then have "has_link (replace_line ''## '' ''<h2>'' ''</h2>'' (replace_line ''### '' ''<h3>'' ''</h3>'' s))"
    by (rule ed_has_link[rotated]) (rule e; simp add: bracket_def plain_def)
  then show ?thesis unfolding headers_def
    by (rule ed_has_link[rotated]) (rule e; simp add: bracket_def plain_def)
qed

lemma ed_replace_delim:
  "d \<noteq> [] \<Longrightarrow> plain d \<Longrightarrow> op \<noteq> [] \<Longrightarrow> plain op \<Longrightarrow> cl \<noteq> [] \<Longrightarrow> plain cl \<Longrightarrow>
   ed s (replace_delim d op cl s)"
proof (induction d op cl s rule: replace_delim.induct)
  case (1 d op cl)
  then show ?case by (simp add: ed_refl)
next
  case (2 d op cl c cs)
  show ?case
  proof (cases "prefix d (c # cs)")
    case False
    have "ed cs (replace_delim d op cl cs)" by (rule "2.IH"(3)[OF False "2.prems"])
    with False show ?thesis by (auto intro: ed_keep)
  next
    case True
    show ?thesis
    proof (cases "lazy_body d (drop (length d) (c # cs))")
      case None
      have "ed cs (replace_delim d op cl cs)" by (rule "2.IH"(1)[OF True None "2.prems"])
      with True None show ?thesis by (auto intro: ed_keep)
    next
      case (Some br)
      obtain b r where br: "br = (b, r)" by (cases br)
      from True have "d @ drop (length d) (c # cs) = c # cs" by (rule prefix_drop)
      moreover from Some br have "drop (length d) (c # cs) = b @ d @ r"
        by (simp add: lazy_body_decomp)
      ultimately have d: "c # cs = d @ b @ d @ r" by simp
      have "ed r (replace_delim d op cl r)"
        by (rule "2.IH"(2)[OF True Some br[symmetric] "2.prems"])
      with "2.prems"(1,2,6,5) have "ed (d @ r) (cl @ replace_delim d op cl r)"
        by (rule ed_sub_chunk)
      then have "ed (b @ d @ r) (b @ cl @ replace_delim d op cl r)" by (rule ed_append_keep)
      with "2.prems"(1,2,4,3)
      have goal: "ed (d @ b @ d @ r) (op @ b @ cl @ replace_delim d op cl r)"
        by (rule ed_sub_chunk)
      have eq: "replace_delim d op cl (c # cs) = op @ b @ cl @ replace_delim d op cl r"
        using True Some br by simp
      show ?thesis unfolding eq by (simp only: d goal)
    qed
  qed
qed

lemma has_link_emphasis: "has_link s \<Longrightarrow> has_link (emphasis s)"
proof -
  have e: "ed x (replace_delim d op cl x)"
    if "d \<noteq> []" "plain d" "op \<noteq> []" "plain op" "cl \<noteq> []" "plain cl" for d op cl x
    using that by (rule ed_replace_delim)
  assume "has_link s"
  then have "has_link (replace_delim ''***'' ''<strong><em>'' ''</em></strong>'' s)"
    by (rule ed_has_link[rotated]) (rule e; simp add: bracket_def plain_def)
  then have "has_link (replace_delim ''**'' ''<strong>'' ''</strong>''
      (replace_delim ''***'' ''<strong><em>'' ''</em></strong>'' s))"
    by (rule ed_has_link[rotated]) (rule e; simp add: bracket_def plain_def)
  then show ?thesis unfolding emphasis_def
    by (rule ed_has_link[rotated]) (rule e; simp add: bracket_def plain_def)
qed

subsubsection \<open>The whole renderer\<close>

lemma marks_markup: "marks (markup s) = marks (replace_links (emphasis (headers (escape_html s))))"
  by (simp add: markup_def marks_line_breaks marks_li_lines marks_replace_code)

lemma marks_render: "marks (render s) = marks (replace_links (emphasis (headers (escape_html s))))"
proof -
  let ?G = "group_li False (split_li [] (strip_br (markup s)))"
  have "marks (render s) = marks (?G @ ''</p>'')"
    by (simp add: render_def marks_lit_Cons del: marks.simps)
  also have "\<dots> = marks ?G @ marks ''</p>''" by (rule marks_append_lt) simp
  also have "marks ''</p>'' = []" by (simp add: A_OPEN_def A_ATTRS_def)
  also have "marks ?G = marks (concat (split_li [] (strip_br (markup s))))"
    by (rule marks_group_li) (rule chain_split_li)
  finally show ?thesis by (simp add: concat_split_li marks_strip_br marks_markup)
qed

lemma attrs_follow_render: "attrs_follow False (render s)"
  using attrs_follow_replace_links[OF safe_early, of s]
  by (simp add: attrs_follow_marks marks_render)

lemma open_position: "Open \<in> set (marks x) \<Longrightarrow> \<exists>i < length x. prefix A_OPEN (drop i x)"
proof (induction x)
  case Nil
  then show ?case by simp
next
  case (Cons c x)
  show ?case
  proof (cases "prefix A_OPEN (c # x)")
    case True
    then have "0 < length (c # x) \<and> prefix A_OPEN (drop 0 (c # x))" by simp
    then show ?thesis by blast
  next
    case False
    with Cons.prems have "Open \<in> set (marks x)" by (auto split: if_splits)
    with Cons.IH obtain i where "i < length x" "prefix A_OPEN (drop i x)" by blast
    then have "Suc i < length (c # x) \<and> prefix A_OPEN (drop (Suc i) (c # x))" by simp
    then show ?thesis by blast
  qed
qed

lemma open_render: "has_link s \<Longrightarrow> \<exists>i < length (render s). prefix A_OPEN (drop i (render s))"
proof -
  assume "has_link s"
  then have "has_link (emphasis (headers (escape_html s)))"
    by (intro has_link_emphasis has_link_headers has_link_escape)
  then have "Open \<in> set (marks (render s))" by (simp add: marks_render open_replace_links)
  then show ?thesis by (rule open_position)
qed

lemma TAGS_a: "list_all (\<lambda>t. 2 \<le> length t \<and> (take 2 t = ''<a'' \<longrightarrow> t = A_OPEN)) TAGS"
  by code_simp

lemma lt_a_is_open: "safe TAGS x \<Longrightarrow> prefix ''<a'' (drop i x) \<Longrightarrow> prefix A_OPEN (drop i x)"
proof (induction x arbitrary: i)
  case Nil
  then show ?case by simp
next
  case (Cons c x)
  show ?case
  proof (cases i)
    case 0
    with Cons.prems(2) have p: "prefix ''<a'' (c # x)" by simp
    then have "c = CHR ''<''" by simp
    with Cons.prems(1) obtain t where t: "t \<in> set TAGS" "prefix t (c # x)" by auto
    with TAGS_a have l: "2 \<le> length t" and a: "take 2 t = ''<a'' \<longrightarrow> t = A_OPEN"
      by (auto simp: list_all_iff)
    from t(2) obtain zs where zs: "c # x = t @ zs" by (auto simp: prefix_def)
    from p obtain ys where ys: "c # x = ''<a'' @ ys" by (auto simp: prefix_def)
    have "take 2 t = take 2 (t @ zs)" using l by simp
    also have "\<dots> = take 2 (''<a'' @ ys)" using zs ys by simp
    also have "\<dots> = ''<a''" by simp
    finally have "t = A_OPEN" using a by blast
    with t(2) 0 show ?thesis by simp
  next
    case (Suc j)
    with Cons.prems have "safe TAGS x" "prefix ''<a'' (drop j x)" by simp_all
    then have "prefix A_OPEN (drop j x)" by (rule Cons.IH)
    with Suc show ?thesis by simp
  qed
qed

text \<open>
  On the text of a rendering: by \<open>open_render\<close>, an input with a link has the opening
  \<open><a href="\<close> of an anchor in its rendering; by \<open>attrs_follow_render\<close>, every such opening
  is followed by the attributes of the template before the next opening and before the
  end; by \<open>lt_a_is_open\<close>, every \<open><a\<close> is such an opening. None of them says that nothing
  stands between the URL and the attributes of the template.
\<close>

text \<open>
  C8. \<open>renderMarkdown("[x](http://e.com)")\<close> is an anchor with \<open>target="_blank"\<close> and
  \<open>rel="noopener"\<close>. The URL is copied between the quotes of \<open>href\<close> with its double quotes
  as they are: in the rendering of \<open>[x](u" target="_self" rel="opener)\<close> the tag of the
  anchor holds \<open>target="_self" rel="opener"\<close> before \<open>target="_blank" rel="noopener"\<close>, and
  \<open>addMessage\<close> assigns it to the \<open>innerHTML\<close> of an assistant message, where the first of
  two attributes of one name is the one the element has.
\<close>

theorem link_target_overridden:
  \<open>renderMarkdown (Some (JStr ''[x](http://e.com)'')) =
     Inr ''<p><a href="http://e.com" target="_blank" rel="noopener">x</a></p>'' \<and>
   renderMarkdown (Some (JStr ''[x](u" target="_self" rel="opener)'')) =
     Inr ''<p><a href="u" target="_self" rel="opener" target="_blank" rel="noopener">x</a></p>'' \<and>
   addMessage (Some (JStr ''[x](u" target="_self" rel="opener)'')) Assistant w =
     Inr (w\<lparr>messages := messages w @ [Message Assistant (InnerHTML
       ''<p><a href="u" target="_self" rel="opener" target="_blank" rel="noopener">x</a></p>'')]\<rparr>)\<close>
proof -
  have r: \<open>renderMarkdown (Some (JStr ''[x](u" target="_self" rel="opener)'')) =
     Inr ''<p><a href="u" target="_self" rel="opener" target="_blank" rel="noopener">x</a></p>''\<close>
    by code_simp
  have \<open>renderMarkdown (Some (JStr ''[x](http://e.com)'')) =
     Inr ''<p><a href="http://e.com" target="_blank" rel="noopener">x</a></p>''\<close>
    by code_simp
  then show ?thesis using r by (simp add: addMessage_def)
qed

subsection \<open>Requests\<close>

lemma render_APOLOGY:
  \<open>renderMarkdown (Some (JStr APOLOGY)) =
     Inr ''<p>I'm sorry, I'm having trouble right now. Please try again in a moment.</p>''\<close>
  by code_simp

lemma render_GREETING:
  \<open>renderMarkdown (Some (JStr GREETING)) =
     Inr ''<p>Welcome! I'm the EdOpt Assistant. How can I help you explore education options in New Hampshire?</p>''\<close>
  by code_simp

lemma sendMessage_catch_eq:
  \<open>sendMessage_catch w =
     Returned (w\<lparr>messages := remove1 TypingIndicator (messages w) @
        [Message Assistant (InnerHTML
           ''<p>I'm sorry, I'm having trouble right now. Please try again in a moment.</p>'')],
        isLoading := False, send_disabled := False, input_focused := True\<rparr>)\<close>
  by (simp add: sendMessage_catch_def addMessage_def render_APOLOGY hideTyping_def
      sendMessage_finally_def Let_def)

lemma fetchGreeting_catch_eq:
  \<open>fetchGreeting_catch w =
     Returned (w\<lparr>messages := remove1 TypingIndicator (messages w) @
        [Message Assistant (InnerHTML
           ''<p>Welcome! I'm the EdOpt Assistant. How can I help you explore education options in New Hampshire?</p>'')]\<rparr>)\<close>
  by (simp add: fetchGreeting_catch_def addMessage_def render_GREETING hideTyping_def Let_def)

lemma addMessage_flags: "addMessage c r w = Inr w' \<Longrightarrow> flags w' = flags w"
  by (auto simp: addMessage_def flags_def split: if_splits sum.splits)

lemma fetchGreeting_try_flags: "flags (snd (fetchGreeting_try data now w)) = flags w"
  by (auto simp: fetchGreeting_try_def flags_def Let_def hideTyping_def addMessage_def
      split: sum.splits if_splits)

lemma fetchGreeting_parsed_flags: "flags (state_of (fetchGreeting_parsed j now w)) = flags w"
proof (cases j)
  case Rejected
  then show ?thesis by (simp add: fetchGreeting_parsed_def fetchGreeting_catch_eq flags_def)
next
  case (Fulfilled data)
  obtain b w' where t: "fetchGreeting_try data now w = (b, w')" by (cases "fetchGreeting_try data now w")
  with fetchGreeting_try_flags[of data now w] have "flags w' = flags w" by simp
  with t Fulfilled show ?thesis
    by (cases b) (simp_all add: fetchGreeting_parsed_def fetchGreeting_catch_eq flags_def)
qed

lemma sendMessage_try_hasGreeted: "hasGreeted (snd (sendMessage_try data now w)) = hasGreeted w"
  by (auto simp: sendMessage_try_def Let_def hideTyping_def addMessage_def
      split: sum.splits if_splits)

lemma sendMessage_parsed_flags:
  "flags (state_of (sendMessage_parsed j now w)) = (False, hasGreeted w)"
proof (cases j)
  case Rejected
  then show ?thesis by (simp add: sendMessage_parsed_def sendMessage_catch_eq flags_def)
next
  case (Fulfilled data)
  obtain b w' where t: "sendMessage_try data now w = (b, w')" by (cases "sendMessage_try data now w")
  with sendMessage_try_hasGreeted[of data now w] have "hasGreeted w' = hasGreeted w" by simp
  with t Fulfilled show ?thesis
    by (cases b)
      (simp_all add: sendMessage_parsed_def sendMessage_catch_eq flags_def sendMessage_finally_def)
qed

lemma sendMessage_fetched_flags:
  "sendMessage_fetched r w = Some out \<Longrightarrow> flags (state_of out) = (False, hasGreeted w)"
  by (auto simp: sendMessage_fetched_def sendMessage_catch_eq flags_def
      split: settled.splits if_splits)

lemma fetchGreeting_fetched_flags:
  "fetchGreeting_fetched r w = Some out \<Longrightarrow> flags (state_of out) = flags w"
  by (auto simp: fetchGreeting_fetched_def fetchGreeting_catch_eq flags_def
      split: settled.splits if_splits)


lemma togglePanel_flags:
  "togglePanel w = (w', q) \<Longrightarrow>
     isLoading w' = isLoading w \<and>
     (if isOpen w \<or> hasGreeted w then q = None \<and> hasGreeted w' = hasGreeted w
      else q = Some GET_greet \<and> hasGreeted w')"
  by (auto simp: togglePanel_def fetchGreeting_def showTyping_def Let_def split: if_splits)

lemma sendMessage_flags:
  "sendMessage h now w = Inr (w', q) \<Longrightarrow>
     hasGreeted w' = hasGreeted w \<and>
     (if trim (input_value w) = [] \<or> isLoading w then q = None \<and> w' = w
      else (\<exists>b. q = Some (POST_chat b)) \<and> isLoading w')"
  by (auto simp: sendMessage_def addMessage_def showTyping_def Let_def
      split: if_splits sum.splits prod.splits)

lemma sendMessage_Inl: "sendMessage h now w \<noteq> Inl x"
  by (auto simp: sendMessage_def addMessage_def Let_def split: if_splits sum.splits prod.splits)

lemma inv_loaded: "inv (loaded h now st)"
  by (simp add: inv_def loaded_def init_def greets_sent_def split: prod.splits)

lemma without_length: "i < length xs \<Longrightarrow> length (without i xs) = length xs - 1"
  by (simp add: without_def)

lemma without_Nil: "i < length xs \<Longrightarrow> length xs = Suc 0 \<Longrightarrow> without i xs = []"
  using without_length[of i xs] by simp

lemma inv_step: "inv s \<Longrightarrow> inv (step h e s)"
proof -
  assume I: "inv s"
  obtain now ev where e: "e = (now, ev)" by (cases e)
  show ?thesis
  proof (cases ev)
    case Toggle
    obtain w q where t: "togglePanel (page s) = (w, q)" by (cases "togglePanel (page s)")
    from togglePanel_flags[OF t] I e Toggle t show ?thesis
      by (cases q) (auto simp: inv_def greets_sent_def split: if_splits)
  next
    case (Edit t)
    with I e show ?thesis by (auto simp: inv_def greets_sent_def split: if_splits)
  next
    case Submit
    show ?thesis
    proof (cases "sendMessage h now (page s)")
      case (Inl x)
      then show ?thesis using sendMessage_Inl by blast
    next
      case (Inr y)
      obtain w q where y: "y = (w, q)" by (cases y)
      from sendMessage_flags[of h now "page s" w q] Inr y I e Submit show ?thesis
        by (cases q) (auto simp: inv_def greets_sent_def split: if_splits)
    qed
  next
    case (GreetFetched i r)
    show ?thesis
    proof (cases "fetchGreeting_fetched r (page s)")
      case None
      with I e GreetFetched show ?thesis by (auto simp: inv_def greets_sent_def split: if_splits)
    next
      case (Some out)
      from fetchGreeting_fetched_flags[OF Some] I e GreetFetched Some show ?thesis
        by (auto simp: inv_def greets_sent_def flags_def split: if_splits)
    qed
  next
    case (GreetParsed i j)
    from fetchGreeting_parsed_flags[of j now "page s"] I e GreetParsed show ?thesis
      by (auto simp: inv_def greets_sent_def flags_def split: if_splits)
  next
    case (ChatFetched i r)
    show ?thesis
    proof (cases "sendMessage_fetched r (page s)")
      case None
      with I e ChatFetched show ?thesis by (auto simp: inv_def greets_sent_def split: if_splits)
    next
      case (Some out)
      from sendMessage_fetched_flags[OF Some] I e ChatFetched Some show ?thesis
        by (auto simp: inv_def greets_sent_def flags_def awaits_def without_length without_Nil split: if_splits)
    qed
  next
    case (ChatParsed i j)
    from sendMessage_parsed_flags[of j now "page s"] I e ChatParsed show ?thesis
      by (auto simp: inv_def greets_sent_def flags_def awaits_def without_length without_Nil split: if_splits)
  qed
qed

lemma inv_run: "inv s \<Longrightarrow> inv (run h es s)"
  by (induction es arbitrary: s) (simp_all add: inv_step)

text \<open>
  C5. \<open>sendMessage\<close> with an input that trims to the empty string, or while \<open>isLoading\<close>
  holds, returns at once: the widget is as before and no request is sent, so the page
  is unchanged by the submission. After any sequence of events on a loaded page at most
  one activation of \<open>sendMessage\<close> is waiting for its response.
\<close>

theorem sendMessage_guard:
  "(trim (input_value w) = [] \<or> isLoading w \<longrightarrow> sendMessage h now w = Inr (w, None)) \<and>
   (trim (input_value (page s)) = [] \<or> isLoading (page s) \<longrightarrow> step h (now, Submit) s = s) \<and>
   length (sends (run h es (loaded h t0 st))) \<le> 1"
proof (intro conjI impI)
  assume "trim (input_value w) = [] \<or> isLoading w"
  then show "sendMessage h now w = Inr (w, None)" by (auto simp: sendMessage_def)
next
  assume "trim (input_value (page s)) = [] \<or> isLoading (page s)"
  then have "sendMessage h now (page s) = Inr (page s, None)" by (auto simp: sendMessage_def)
  then show "step h (now, Submit) s = s" by simp
next
  have "inv (run h es (loaded h t0 st))" by (rule inv_run) (rule inv_loaded)
  then show "length (sends (run h es (loaded h t0 st))) \<le> 1" by (simp add: inv_def)
qed

theorem sendMessage_guard_witness:
  "sendMessage (\<lambda>v. NaN) 7
     ((init (\<lambda>v. NaN) 0 \<lparr>items = [], available = True, full = False\<rparr>)
        \<lparr>input_value := [CHR 0x20, CHR 0x0A, CHR 0x09]\<rparr>) =
   Inr ((init (\<lambda>v. NaN) 0 \<lparr>items = [], available = True, full = False\<rparr>)
          \<lparr>input_value := [CHR 0x20, CHR 0x0A, CHR 0x09]\<rparr>, None) \<and>
   sendMessage (\<lambda>v. NaN) 7
     ((init (\<lambda>v. NaN) 0 \<lparr>items = [], available = True, full = False\<rparr>)
        \<lparr>input_value := ''hello'', isLoading := True\<rparr>) =
   Inr ((init (\<lambda>v. NaN) 0 \<lparr>items = [], available = True, full = False\<rparr>)
          \<lparr>input_value := ''hello'', isLoading := True\<rparr>, None) \<and>
   length (sends (run (\<lambda>v. NaN) [(1, Edit ''hello''), (2, Submit), (3, Edit ''again''), (4, Submit)]
     (loaded (\<lambda>v. NaN) 0 \<lparr>items = [], available = True, full = False\<rparr>))) \<le> 1"
proof -
  let ?w = "init (\<lambda>v. NaN) 0 \<lparr>items = [], available = True, full = False\<rparr>"
  have blank: "trim (input_value (?w\<lparr>input_value := [CHR 0x20, CHR 0x0A, CHR 0x09]\<rparr>)) = []"
    by (simp add: trim_def WhiteSpace_def)
  have busy: "isLoading (?w\<lparr>input_value := ''hello'', isLoading := True\<rparr>)" by simp
  from blank sendMessage_guard[of "?w\<lparr>input_value := [CHR 0x20, CHR 0x0A, CHR 0x09]\<rparr>" "\<lambda>v. NaN" 7]
  have 1: "sendMessage (\<lambda>v. NaN) 7 (?w\<lparr>input_value := [CHR 0x20, CHR 0x0A, CHR 0x09]\<rparr>) =
    Inr (?w\<lparr>input_value := [CHR 0x20, CHR 0x0A, CHR 0x09]\<rparr>, None)" by blast
  from busy sendMessage_guard[of "?w\<lparr>input_value := ''hello'', isLoading := True\<rparr>" "\<lambda>v. NaN" 7]
  have 2: "sendMessage (\<lambda>v. NaN) 7 (?w\<lparr>input_value := ''hello'', isLoading := True\<rparr>) =
    Inr (?w\<lparr>input_value := ''hello'', isLoading := True\<rparr>, None)" by blast
  from sendMessage_guard
  have 3: "length (sends (run (\<lambda>v. NaN) [(1, Edit ''hello''), (2, Submit), (3, Edit ''again''), (4, Submit)]
     (loaded (\<lambda>v. NaN) 0 \<lparr>items = [], available = True, full = False\<rparr>))) \<le> 1" by blast
  from 1 2 3 show ?thesis by blast
qed

text \<open>
  C6. When \<open>fetch\<close> rejects, when the response is not \<open>ok\<close>, and when reading the body as
  JSON rejects, the activation of \<open>sendMessage\<close> returns with the first typing indicator
  removed and exactly one message appended, the assistant's fixed apology; and however
  the activation ends, by way of \<open>catch\<close> or not, it returns with \<open>isLoading\<close> cleared, the
  send button enabled and the input focused.
\<close>

theorem sendMessage_failure_and_finally:
  \<open>sendMessage_fetched Rejected w = Some (Returned (w\<lparr>messages :=
       remove1 TypingIndicator (messages w) @
       [Message Assistant (InnerHTML
          ''<p>I'm sorry, I'm having trouble right now. Please try again in a moment.</p>'')],
       isLoading := False, send_disabled := False, input_focused := True\<rparr>)) \<and>
   sendMessage_fetched (Fulfilled (Response False)) w = Some (Returned (w\<lparr>messages :=
       remove1 TypingIndicator (messages w) @
       [Message Assistant (InnerHTML
          ''<p>I'm sorry, I'm having trouble right now. Please try again in a moment.</p>'')],
       isLoading := False, send_disabled := False, input_focused := True\<rparr>)) \<and>
   sendMessage_parsed Rejected now w = Returned (w\<lparr>messages :=
       remove1 TypingIndicator (messages w) @
       [Message Assistant (InnerHTML
          ''<p>I'm sorry, I'm having trouble right now. Please try again in a moment.</p>'')],
       isLoading := False, send_disabled := False, input_focused := True\<rparr>) \<and>
   (case sendMessage_fetched r w of
      None \<Rightarrow> True
    | Some (Returned w') \<Rightarrow> \<not> isLoading w' \<and> \<not> send_disabled w' \<and> input_focused w'
    | Some (Threw e w') \<Rightarrow> False) \<and>
   (case sendMessage_parsed j now w of
      Returned w' \<Rightarrow> \<not> isLoading w' \<and> \<not> send_disabled w' \<and> input_focused w'
    | Threw e w' \<Rightarrow> False)\<close>
proof (intro conjI)
  show \<open>case sendMessage_parsed j now w of
      Returned w' \<Rightarrow> \<not> isLoading w' \<and> \<not> send_disabled w' \<and> input_focused w'
    | Threw e w' \<Rightarrow> False\<close>
  proof (cases j)
    case Rejected
    then show ?thesis by (simp add: sendMessage_parsed_def sendMessage_catch_eq)
  next
    case (Fulfilled data)
    obtain b w' where "sendMessage_try data now w = (b, w')"
      by (cases "sendMessage_try data now w")
    with Fulfilled show ?thesis
      by (cases b) (simp_all add: sendMessage_parsed_def sendMessage_catch_eq sendMessage_finally_def)
  qed
qed (simp_all add: sendMessage_fetched_def sendMessage_parsed_def sendMessage_catch_eq
      split: settled.splits)

text \<open>
  C7. \<open>fetchGreeting\<close> sets \<open>hasGreeted\<close> before its request is in flight, and after any
  sequence of events on a loaded page, toggles while a greeting is pending included, at
  most one \<open>GET /greet\<close> has been sent.
\<close>

theorem greeting_requested_once:
  "hasGreeted (fst (fetchGreeting w)) \<and> snd (fetchGreeting w) = GET_greet \<and>
   length (filter (\<lambda>q. q = GET_greet) (sent (run h es (loaded h t0 st)))) \<le> 1"
proof -
  have "inv (run h es (loaded h t0 st))" by (rule inv_run) (rule inv_loaded)
  then show ?thesis by (simp add: inv_def greets_sent_def fetchGreeting_def showTyping_def)
qed

text \<open>
  C1. \<open>fetchGreeting\<close> does not look at the status of the response. With a response that is
  not \<open>ok\<close> it goes on to read the body, where \<open>sendMessage\<close> goes to its \<open>catch\<close> block; and
  when that body is the JSON of an error, the message it appends is the rendering of
  \<open>undefined\<close>, an empty assistant message, not the fixed welcome.
\<close>

theorem fetchGreeting_ignores_status:
  "fetchGreeting_fetched (Fulfilled (Response False)) w = None \<and>
   sendMessage_fetched (Fulfilled (Response False)) w = Some (sendMessage_catch w) \<and>
   messages (page (run (\<lambda>v. NaN)
     [(1, Toggle),
      (2, GreetFetched 0 (Fulfilled (Response False))),
      (3, GreetParsed 0 (Fulfilled (JObj [(''detail'', JStr ''Not Found'')])))]
     (loaded (\<lambda>v. NaN) 0 \<lparr>items = [], available = True, full = False\<rparr>))) =
   [Message Assistant (InnerHTML [])]"
  by (simp add: fetchGreeting_fetched_def sendMessage_fetched_def loaded_def init_def
      getSession_def getSession_try_def getItem_def togglePanel_def fetchGreeting_def
      showTyping_def awaits_def without_def fetchGreeting_parsed_def fetchGreeting_try_def
      hideTyping_def addMessage_def renderMarkdown_def Let_def)

end
